theory Spec2Isabelle
  imports Complex_Main "HOL-Library.AList" "HOL-Library.Multiset"
begin

section \<open>Values of the source language\<close>

text \<open>
  A JavaScript \<open>Map\<close> is an association list in insertion order: \<open>Map.get\<close> is
  \<^const>\<open>map_of\<close>, \<open>Map.set\<close> is \<^const>\<open>AList.update\<close> (an existing key keeps its
  position, a new key goes to the end), \<open>Map.delete\<close> is \<^const>\<open>AList.delete\<close>.
  A \<open>Set\<close> of strings is the list of its members in insertion order.
\<close>

definition set_add :: "string \<Rightarrow> string list \<Rightarrow> string list" where
  "set_add a xs = (if a \<in> set xs then xs else xs @ [a])"

definition set_delete :: "string \<Rightarrow> string list \<Rightarrow> string list" where
  "set_delete a xs = removeAll a xs"

definition set_has :: "string list \<Rightarrow> string \<Rightarrow> bool" where
  "set_has xs a = (a \<in> set xs)"

definition map_has :: "(string \<times> 'v) list \<Rightarrow> string \<Rightarrow> bool" where
  "map_has m k = (map_of m k \<noteq> None)"

text \<open>
  A value of type \<open>number | undefined\<close>. \<open>Num x\<close> is a finite double, given by the real
  number it stands for; \<open>PosInf\<close> and \<open>NegInf\<close> are \<open>Infinity\<close> and \<open>-Infinity\<close>;
  \<open>Undefined\<close> is what \<open>Map.get\<close> returns for a missing key. The sign of a zero is not
  kept: the engines add, compare and print numbers, which does not tell \<open>-0\<close> from \<open>0\<close>.
\<close>

datatype jsnum = Num real | PosInf | NegInf | NaN | Undefined

subsection \<open>Rounding to a double\<close>

text \<open>
  An arithmetic operation returns the double nearest to its exact result, and of two
  nearest ones the one with the even significand. A double has a significand of 53 bits
  and an exponent from -1022 to 1023; below \<open>2\<^sup>-\<^sup>1\<^sup>0\<^sup>2\<^sup>2\<close> the doubles are \<open>2\<^sup>-\<^sup>1\<^sup>0\<^sup>7\<^sup>4\<close> apart;
  a result that rounds to \<open>2\<^sup>1\<^sup>0\<^sup>2\<^sup>4\<close> is an infinity.
\<close>

fun bit_length :: "nat \<Rightarrow> nat" where
  "bit_length n = (if n = 0 then 0 else Suc (bit_length (n div 2)))"

declare bit_length.simps [simp del]

definition pow2 :: "int \<Rightarrow> real" where
  "pow2 e = (if 0 \<le> e then 2 ^ nat e else 1 / 2 ^ nat (- e))"

text \<open>The \<open>e\<close> with \<open>2\<^sup>e \<le> a < 2\<^sup>e\<^sup>+\<^sup>1\<close>, for \<open>a > 0\<close>.\<close>

definition exponent :: "real \<Rightarrow> int" where
  "exponent a = (if 1 \<le> a then int (bit_length (nat \<lfloor>a\<rfloor>)) - 1
                 else - int (bit_length (nat (\<lceil>1 / a\<rceil> - 1))))"

definition round_half_even :: "real \<Rightarrow> int" where
  "round_half_even q =
     (let f = \<lfloor>q\<rfloor>; d = q - of_int f
      in if d < 1 / 2 then f else if 1 / 2 < d then f + 1 else if even f then f else f + 1)"

definition round_double :: "real \<Rightarrow> jsnum" where
  "round_double x =
     (if x = 0 then Num 0
      else (let a = \<bar>x\<bar>; e = max (exponent a) (- 1022); ulp = pow2 (e - 52);
                m = round_half_even (a / ulp)
            in if 1023 < e \<or> (e = 1023 \<and> m = 2 ^ 53) then (if x < 0 then NegInf else PosInf)
               else Num (sgn x * (of_int m * ulp))))"

subsection \<open>Arithmetic and comparison\<close>

text \<open>\<open>a + b\<close>; \<open>undefined\<close> counts as \<open>NaN\<close>.\<close>

fun js_add :: "jsnum \<Rightarrow> jsnum \<Rightarrow> jsnum" where
  "js_add (Num a) (Num b) = round_double (a + b)"
| "js_add (Num a) PosInf = PosInf"
| "js_add (Num a) NegInf = NegInf"
| "js_add PosInf (Num b) = PosInf"
| "js_add PosInf PosInf = PosInf"
| "js_add NegInf (Num b) = NegInf"
| "js_add NegInf NegInf = NegInf"
| "js_add a b = NaN"

text \<open>\<open>a < b\<close> and \<open>a <= b\<close>: false when a side is \<open>NaN\<close> or \<open>undefined\<close>.\<close>

fun js_lt :: "jsnum \<Rightarrow> jsnum \<Rightarrow> bool" where
  "js_lt (Num a) (Num b) = (a < b)"
| "js_lt (Num a) PosInf = True"
| "js_lt NegInf (Num b) = True"
| "js_lt NegInf PosInf = True"
| "js_lt a b = False"

fun js_le :: "jsnum \<Rightarrow> jsnum \<Rightarrow> bool" where
  "js_le (Num a) (Num b) = (a \<le> b)"
| "js_le (Num a) PosInf = True"
| "js_le NegInf (Num b) = True"
| "js_le NegInf PosInf = True"
| "js_le PosInf PosInf = True"
| "js_le NegInf NegInf = True"
| "js_le a b = False"

text \<open>The other operations that the heuristics use: \<open>a - b\<close>, \<open>a * b\<close>, \<open>a / b\<close> (a zero
  divisor is taken as \<open>+0\<close>), \<open>Math.sqrt\<close> and \<open>Math.abs\<close>.\<close>

fun js_neg :: "jsnum \<Rightarrow> jsnum" where
  "js_neg (Num a) = Num (- a)"
| "js_neg PosInf = NegInf"
| "js_neg NegInf = PosInf"
| "js_neg a = NaN"

definition js_sub :: "jsnum \<Rightarrow> jsnum \<Rightarrow> jsnum" where
  "js_sub a b = js_add a (js_neg b)"

fun js_mul :: "jsnum \<Rightarrow> jsnum \<Rightarrow> jsnum" where
  "js_mul (Num a) (Num b) = round_double (a * b)"
| "js_mul a b =
     (if a = NaN \<or> a = Undefined \<or> b = NaN \<or> b = Undefined \<or> a = Num 0 \<or> b = Num 0 then NaN
      else if js_lt a (Num 0) = js_lt b (Num 0) then PosInf else NegInf)"

fun js_div :: "jsnum \<Rightarrow> jsnum \<Rightarrow> jsnum" where
  "js_div (Num a) (Num b) =
     (if b = 0 then (if a = 0 then NaN else if 0 < a then PosInf else NegInf)
      else round_double (a / b))"
| "js_div (Num a) PosInf = Num 0"
| "js_div (Num a) NegInf = Num 0"
| "js_div PosInf (Num b) = (if 0 \<le> b then PosInf else NegInf)"
| "js_div NegInf (Num b) = (if 0 \<le> b then NegInf else PosInf)"
| "js_div a b = NaN"

fun js_sqrt :: "jsnum \<Rightarrow> jsnum" where
  "js_sqrt (Num a) = (if a < 0 then NaN else round_double (sqrt a))"
| "js_sqrt PosInf = PosInf"
| "js_sqrt a = NaN"

fun js_abs :: "jsnum \<Rightarrow> jsnum" where
  "js_abs (Num a) = Num \<bar>a\<bar>"
| "js_abs PosInf = PosInf"
| "js_abs NegInf = PosInf"
| "js_abs a = NaN"

definition num_get :: "(string \<times> jsnum) list \<Rightarrow> string \<Rightarrow> jsnum" where
  "num_get m k = (case map_of m k of None \<Rightarrow> Undefined | Some v \<Rightarrow> v)"

section \<open>The graph model (graph.ts)\<close>

record node =
  n_id :: string
  n_x :: real
  n_y :: real
  n_label :: "string option"

record edge =
  e_id :: string
  e_source :: string
  e_target :: string
  e_weight :: real
  e_directed :: "bool option"

text \<open>
  The adjacency list maps a node id to a \<open>Set\<close> object. The edit operations copy the
  \<open>Map\<close>s but not the \<open>Set\<close>s inside, so two graph values can hold the same \<open>Set\<close>:
  the sets live in a store, and the adjacency list holds their addresses.
\<close>

type_synonym ref = nat

record store =
  cells :: "ref \<Rightarrow> string list"
  fresh :: ref

record graph =
  nodes :: "(string \<times> node) list"
  edges :: "(string \<times> edge) list"
  adjacencyList :: "(string \<times> ref) list"
  directed :: bool

definition empty_store :: store where
  "empty_store = \<lparr>cells = (\<lambda>r. []), fresh = 0\<rparr>"

definition createGraph :: "bool \<Rightarrow> graph" where
  "createGraph d = \<lparr>nodes = [], edges = [], adjacencyList = [], directed = d\<rparr>"

text \<open>\<open>if (!adj.has(k)) adj.set(k, new Set())\<close>, returning the set now at \<open>k\<close>.\<close>

definition ensure_set :: "store \<Rightarrow> (string \<times> ref) list \<Rightarrow> string \<Rightarrow> store \<times> (string \<times> ref) list \<times> ref" where
  "ensure_set h adj k =
     (case map_of adj k of
        Some r \<Rightarrow> (h, adj, r)
      | None \<Rightarrow> (h\<lparr>cells := (cells h)(fresh h := []), fresh := Suc (fresh h)\<rparr>,
                 AList.update k (fresh h) adj, fresh h))"

definition cell_add :: "store \<Rightarrow> ref \<Rightarrow> string \<Rightarrow> store" where
  "cell_add h r a = h\<lparr>cells := (cells h)(r := set_add a (cells h r))\<rparr>"

definition cell_delete :: "store \<Rightarrow> ref \<Rightarrow> string \<Rightarrow> store" where
  "cell_delete h r a = h\<lparr>cells := (cells h)(r := set_delete a (cells h r))\<rparr>"

definition addNode :: "store \<Rightarrow> graph \<Rightarrow> node \<Rightarrow> store \<times> graph" where
  "addNode h g nd =
     (let newNodes = AList.update (n_id nd) nd (nodes g);
          (h1, newAdjacency, r) = ensure_set h (adjacencyList g) (n_id nd)
      in (h1, g\<lparr>nodes := newNodes, adjacencyList := newAdjacency\<rparr>))"

text \<open>One round of the loop of \<open>removeNode\<close> over \<open>graph.edges\<close>.\<close>

definition removeNode_edge ::
  "string \<Rightarrow> (string \<times> ref) list \<Rightarrow> string \<times> edge \<Rightarrow> store \<times> (string \<times> edge) list
     \<Rightarrow> store \<times> (string \<times> edge) list" where
  "removeNode_edge nodeId newAdjacency ke acc =
     (case ke of (edgeId, e) \<Rightarrow> (case acc of (h, newEdges) \<Rightarrow>
        if e_source e = nodeId \<or> e_target e = nodeId then
          (let otherId = (if e_source e = nodeId then e_target e else e_source e)
           in (case map_of newAdjacency otherId of
                 Some otherAdj \<Rightarrow> (cell_delete h otherAdj edgeId, AList.delete edgeId newEdges)
               | None \<Rightarrow> (h, AList.delete edgeId newEdges)))
        else (h, newEdges)))"

definition removeNode :: "store \<Rightarrow> graph \<Rightarrow> string \<Rightarrow> store \<times> graph" where
  "removeNode h g nodeId =
     (let newNodes = AList.delete nodeId (nodes g);
          (h1, newEdges) = fold (removeNode_edge nodeId (adjacencyList g)) (edges g) (h, edges g);
          newAdjacency = AList.delete nodeId (adjacencyList g)
      in (h1, g\<lparr>nodes := newNodes, edges := newEdges, adjacencyList := newAdjacency\<rparr>))"

definition addEdge :: "store \<Rightarrow> graph \<Rightarrow> edge \<Rightarrow> store \<times> graph" where
  "addEdge h g e =
     (let newEdges = AList.update (e_id e) (e\<lparr>e_directed := Some (directed g)\<rparr>) (edges g);
          (h1, adj1, rs) = ensure_set h (adjacencyList g) (e_source e);
          h2 = cell_add h1 rs (e_id e)
      in if \<not> directed g then
           (let (h3, adj3, rt) = ensure_set h2 adj1 (e_target e);
                h4 = cell_add h3 rt (e_id e)
            in (h4, g\<lparr>edges := newEdges, adjacencyList := adj3\<rparr>))
         else (h2, g\<lparr>edges := newEdges, adjacencyList := adj1\<rparr>))"

definition removeEdge :: "store \<Rightarrow> graph \<Rightarrow> string \<Rightarrow> store \<times> graph" where
  "removeEdge h g edgeId =
     (case map_of (edges g) edgeId of
        None \<Rightarrow> (h, g)
      | Some e \<Rightarrow>
         (let newEdges = AList.delete edgeId (edges g);
              h1 = (case map_of (adjacencyList g) (e_source e) of
                      Some sourceAdj \<Rightarrow> cell_delete h sourceAdj edgeId
                    | None \<Rightarrow> h);
              h2 = (if \<not> directed g then
                      (case map_of (adjacencyList g) (e_target e) of
                         Some targetAdj \<Rightarrow> cell_delete h1 targetAdj edgeId
                       | None \<Rightarrow> h1)
                    else h1)
          in (h2, g\<lparr>edges := newEdges\<rparr>)))"

text \<open>One round of the loop of \<open>getNeighbors\<close> over the edge ids of the node.\<close>

definition neighbor_of :: "graph \<Rightarrow> string \<Rightarrow> string \<Rightarrow> (string \<times> string \<times> real) option" where
  "neighbor_of g nodeId edgeId =
     (case map_of (edges g) edgeId of
        None \<Rightarrow> None
      | Some e \<Rightarrow>
          if e_source e = nodeId then Some (e_target e, edgeId, e_weight e)
          else if \<not> directed g \<and> e_target e = nodeId then Some (e_source e, edgeId, e_weight e)
          else None)"

definition getNeighbors :: "store \<Rightarrow> graph \<Rightarrow> string \<Rightarrow> (string \<times> string \<times> real) list" where
  "getNeighbors h g nodeId =
     (case map_of (adjacencyList g) nodeId of
        None \<Rightarrow> []
      | Some edgeIds \<Rightarrow> List.map_filter (neighbor_of g nodeId) (cells h edgeIds))"

definition findEdgeId :: "graph \<Rightarrow> string \<Rightarrow> string \<Rightarrow> string option" where
  "findEdgeId g nodeA nodeB =
     map_option fst
       (List.find (\<lambda>(edgeId, e).
           (e_source e = nodeA \<and> e_target e = nodeB) \<or>
           (\<not> directed g \<and> e_source e = nodeB \<and> e_target e = nodeA)) (edges g))"

text \<open>The adjacency sets of a graph value, as the store holds them now.\<close>

definition adjacency_view :: "store \<Rightarrow> graph \<Rightarrow> (string \<times> string list) list" where
  "adjacency_view h g = map (\<lambda>(k, r). (k, cells h r)) (adjacencyList g)"

section \<open>The priority queue (class PriorityQueue, the same in both engines)\<close>

text \<open>
  The heap array of \<open>{item, priority}\<close> entries. \<open>bubbleUp\<close> and \<open>bubbleDown\<close> are
  private; \<open>enqueue\<close> calls \<open>bubbleUp\<close> at the last index and \<open>dequeue\<close> calls
  \<open>bubbleDown\<close> at index 0 of a heap that is not empty, so every read is in range.
\<close>

type_synonym heap = "(string \<times> jsnum) list"

definition swap :: "heap \<Rightarrow> nat \<Rightarrow> nat \<Rightarrow> heap" where
  "swap hp i j = hp[i := hp ! j, j := hp ! i]"

function bubbleUp :: "heap \<Rightarrow> nat \<Rightarrow> heap" where
  "bubbleUp hp index =
     (if index > 0 then
        (let parentIndex = (index - 1) div 2
         in if js_le (snd (hp ! parentIndex)) (snd (hp ! index)) then hp
            else bubbleUp (swap hp parentIndex index) parentIndex)
      else hp)"
  by pat_completeness auto
termination
  by (relation "measure (\<lambda>(hp, index). index)") auto

function bubbleDown :: "heap \<Rightarrow> nat \<Rightarrow> heap" where
  "bubbleDown hp index =
     (let leftChild = 2 * index + 1;
          rightChild = 2 * index + 2;
          smallest0 = index;
          smallest1 = (if leftChild < length hp \<and> js_lt (snd (hp ! leftChild)) (snd (hp ! smallest0))
                       then leftChild else smallest0);
          smallest = (if rightChild < length hp \<and> js_lt (snd (hp ! rightChild)) (snd (hp ! smallest1))
                      then rightChild else smallest1)
      in if smallest = index then hp
         else bubbleDown (swap hp smallest index) smallest)"
  by pat_completeness auto
termination
  by (relation "measure (\<lambda>(hp, index). length hp - index)")
     (auto simp: swap_def Let_def split: if_splits)

declare bubbleUp.simps [simp del] bubbleDown.simps [simp del]

definition enqueue :: "heap \<Rightarrow> string \<Rightarrow> jsnum \<Rightarrow> heap" where
  "enqueue hp item priority = bubbleUp (hp @ [(item, priority)]) (length hp)"

definition isEmpty :: "heap \<Rightarrow> bool" where
  "isEmpty hp = (length hp = 0)"

definition dequeue :: "heap \<Rightarrow> string option \<times> heap" where
  "dequeue hp =
     (if isEmpty hp then (None, hp)
      else (let min = hd hp; lst = last hp; hp1 = butlast hp
            in if length hp1 > 0 then (Some (fst min), bubbleDown (hp1[0 := lst]) 0)
               else (Some (fst min), hp1)))"

subsection \<open>The queue keeps its entries\<close>

lemma mset_swap_heap: "i < length hp \<Longrightarrow> j < length hp \<Longrightarrow> mset (swap hp i j) = mset hp"
  unfolding swap_def by (simp add: mset_swap)

lemma length_swap [simp]: "length (swap hp i j) = length hp"
  by (simp add: swap_def)

lemma mset_bubbleUp: "index < length hp \<Longrightarrow> mset (bubbleUp hp index) = mset hp"
proof (induction hp index rule: bubbleUp.induct)
  case (1 hp index)
  show ?case
  proof (cases "index > 0 \<and> \<not> js_le (snd (hp ! ((index - 1) div 2))) (snd (hp ! index))")
    case True
    have p: "(index - 1) div 2 < length hp" using "1.prems" by simp
    have "mset (bubbleUp (swap hp ((index - 1) div 2) index) ((index - 1) div 2)) = mset (swap hp ((index - 1) div 2) index)"
      using True p by (intro "1.IH") auto
    then show ?thesis using True p "1.prems"
      by (subst bubbleUp.simps) (simp add: mset_swap_heap Let_def)
  next
    case False
    then show ?thesis by (subst bubbleUp.simps) (auto simp: Let_def)
  qed
qed

lemma mset_bubbleDown: "mset (bubbleDown hp index) = mset hp"
proof (induction hp index rule: bubbleDown.induct)
  case (1 hp index)
  define l where "l = 2 * index + 1"
  define r where "r = 2 * index + 2"
  define s1 where "s1 = (if l < length hp \<and> js_lt (snd (hp ! l)) (snd (hp ! index)) then l else index)"
  define s where "s = (if r < length hp \<and> js_lt (snd (hp ! r)) (snd (hp ! s1)) then r else s1)"
  have unf: "bubbleDown hp index = (if s = index then hp else bubbleDown (swap hp s index) s)"
    by (subst bubbleDown.simps) (simp add: Let_def l_def r_def s1_def s_def)
  show ?case
  proof (cases "s = index")
    case True
    then show ?thesis using unf by simp
  next
    case False
    have s_lt: "s < length hp" and i_lt: "index < length hp"
      using False by (auto simp: s_def s1_def l_def r_def split: if_splits)
    have "mset (bubbleDown (swap hp s index) s) = mset (swap hp s index)"
      using False by (intro "1.IH"[OF l_def r_def _ s1_def s_def]) auto
    then show ?thesis using unf False s_lt i_lt by (simp add: mset_swap_heap)
  qed
qed

lemma mset_enqueue: "mset (enqueue hp item priority) = add_mset (item, priority) (mset hp)"
  by (simp add: enqueue_def mset_bubbleUp)

lemma dequeue_nonempty:
  assumes "hp \<noteq> []"
  shows "\<exists>hp'. dequeue hp = (Some (fst (hd hp)), hp') \<and> mset hp = add_mset (hd hp) (mset hp')"
proof (cases "butlast hp = []")
  case True
  then have "hp = [hd hp]" using assms by (cases hp) (auto split: if_splits)
  then show ?thesis using assms True by (auto simp: dequeue_def isEmpty_def Let_def)
next
  case False
  obtain a as where hp1: "butlast hp = a # as" using False by (cases "butlast hp") auto
  have hp: "hp = butlast hp @ [last hp]" using assms by simp
  have hd: "hd hp = a" using hp hp1 by (metis hd_append2 list.sel(1) list.simps(3))
  have "mset hp = add_mset (last hp) (mset (butlast hp))" by (subst hp) (simp del: append_butlast_last_id)
  then have "mset hp = add_mset a (mset ((butlast hp)[0 := last hp]))"
    using hp1 by simp
  then show ?thesis using assms False hd
    by (auto simp: dequeue_def isEmpty_def Let_def mset_bubbleDown)
qed

lemma set_enqueue: "set (enqueue hp x p) = insert (x, p) (set hp)"
  by (metis mset_enqueue set_mset_mset set_mset_add_mset_insert)

lemma dequeue_Some:
  assumes "\<not> isEmpty hp" "dequeue hp = (Some c, hp')"
  shows "c = fst (hd hp)" "c \<in> fst ` set hp" "set hp' \<subseteq> set hp" "length hp' < length hp"
    "mset hp = add_mset (hd hp) (mset hp')"
proof -
  have ne: "hp \<noteq> []" using assms(1) by (simp add: isEmpty_def)
  from dequeue_nonempty[OF ne] assms(2)
  show c: "c = fst (hd hp)" and m: "mset hp = add_mset (hd hp) (mset hp')" by auto
  show "c \<in> fst ` set hp" using c ne by simp
  show "set hp' \<subseteq> set hp" using m by (metis set_mset_mset set_mset_add_mset_insert subset_insertI)
  show "length hp' < length hp" using m by (metis size_mset size_add_mset lessI)
qed

lemma dequeue_None: "\<not> isEmpty hp \<Longrightarrow> fst (dequeue hp) \<noteq> None"
  by (simp add: dequeue_def Let_def)

section \<open>The step trace (types.ts)\<close>

datatype step_type =
  Init | SelectNode | ExamineEdge | RelaxEdge | SkipEdge | MarkVisited | UpdateQueue
  | PathFound | NoPath | Complete

datatype NodeState = NDefault | NCurrent | NVisited | NInQueue | NPath | NStart | NEnd

datatype EdgeState = EDefault | EConsidering | ERelaxed | ERejected | EPath

text \<open>
  The two explanation strings are template literals. A template is kept as the list of
  its pieces: literal text, a character outside ASCII by its code point, an interpolated
  string, an interpolated number (\<open>${n}\<close>), a number through \<open>toFixed(1)\<close>, and a list
  of ids joined by an arrow.
\<close>

datatype frag =
  Lit string | Sym nat | Str string | NumF jsnum | Fixed1 jsnum | Joined "string list"

record explanation =
  beginner :: "frag list"
  advanced :: "frag list"

record currentEdge =
  ce_edgeId :: string
  ce_from :: string
  ce_to :: string
  ce_weight :: real
  ce_oldDistance :: jsnum
  ce_newDistance :: jsnum
  ce_wasRelaxed :: bool

text \<open>The five pieces of algorithm state that every step copies.\<close>

record vars =
  distances :: "(string \<times> jsnum) list"
  predecessors :: "(string \<times> string option) list"
  visited :: "string list"
  nodeStates :: "(string \<times> NodeState) list"
  edgeStates :: "(string \<times> EdgeState) list"

record step = vars +
  stype :: step_type
  currentNode :: "string option"
  queue :: heap
  pseudocodeLine :: nat
  explanation :: explanation
  currentEdge :: "currentEdge option"
  shortestPath :: "string list option"
  totalDistance :: "jsnum option"

definition mk_step ::
  "step_type \<Rightarrow> string option \<Rightarrow> 'a vars_scheme \<Rightarrow> heap \<Rightarrow> nat \<Rightarrow> frag list \<Rightarrow> frag list \<Rightarrow> step" where
  "mk_step ty cur st q line b a =
     \<lparr>distances = distances st, predecessors = predecessors st, visited = visited st,
      nodeStates = nodeStates st, edgeStates = edgeStates st,
      stype = ty, currentNode = cur, queue = q, pseudocodeLine = line,
      explanation = \<lparr>beginner = b, advanced = a\<rparr>,
      currentEdge = None, shortestPath = None, totalDistance = None\<rparr>"

definition mk_edge :: "string \<Rightarrow> string \<Rightarrow> string \<Rightarrow> real \<Rightarrow> jsnum \<Rightarrow> jsnum \<Rightarrow> bool \<Rightarrow> currentEdge" where
  "mk_edge edgeId f t w old new r =
     \<lparr>ce_edgeId = edgeId, ce_from = f, ce_to = t, ce_weight = w,
      ce_oldDistance = old, ce_newDistance = new, ce_wasRelaxed = r\<rparr>"

text \<open>\<open>x === Infinity ? '\<infinity>' : x\<close> inside a template.\<close>

definition inf_or :: "jsnum \<Rightarrow> frag" where
  "inf_or v = (if v = PosInf then Sym 8734 else NumF v)"

text \<open>\<open>if (x)\<close> on a string that may be undefined or null: the empty string is falsy.\<close>

definition truthy :: "string option \<Rightarrow> bool" where
  "truthy s = (case s of None \<Rightarrow> False | Some v \<Rightarrow> v \<noteq> [])"

section \<open>Path reconstruction and marking (the helpers of both engines)\<close>

partial_function (option) reconstructPath_loop ::
  "(string \<times> string option) list \<Rightarrow> string list \<Rightarrow> string option \<Rightarrow> string list option" where
  "reconstructPath_loop preds path current =
     (case current of
        None \<Rightarrow> Some path
      | Some c \<Rightarrow>
          reconstructPath_loop preds (c # path)
            (case map_of preds c of Some (Some p) \<Rightarrow> Some p | _ \<Rightarrow> None))"

declare reconstructPath_loop.simps [code]

definition reconstructPath :: "(string \<times> string option) list \<Rightarrow> string \<Rightarrow> string list option" where
  "reconstructPath preds targetId = reconstructPath_loop preds [] (Some targetId)"

text \<open>
  The loop \<open>for (i = 0; i < path.length - 1; i++)\<close> that marks the path: the edge found
  between \<open>path[i]\<close> and \<open>path[i + 1]\<close>, and the node \<open>path[i]\<close>.
\<close>

fun mark_path ::
  "graph \<Rightarrow> string \<Rightarrow> string list \<Rightarrow> 'a vars_scheme \<Rightarrow> 'a vars_scheme" where
  "mark_path g sourceId (a # b # rest) st =
     (let st1 = (case findEdgeId g a b of
                   Some edgeId \<Rightarrow>
                     if edgeId \<noteq> [] then st\<lparr>edgeStates := AList.update edgeId EPath (edgeStates st)\<rparr>
                     else st
                 | None \<Rightarrow> st);
          st2 = st1\<lparr>nodeStates := AList.update a (if a = sourceId then NStart else NPath) (nodeStates st1)\<rparr>
      in mark_path g sourceId (b # rest) st2)"
| "mark_path g sourceId path st = st"

text \<open>\<open>for (const [edgeId, state] of edgeStates) if (state === 'relaxed') ...\<close>\<close>

definition reset_relaxed :: "(string \<times> EdgeState) list \<Rightarrow> (string \<times> EdgeState) list" where
  "reset_relaxed es = map (\<lambda>(edgeId, state). (edgeId, if state = ERelaxed then EDefault else state)) es"

section \<open>The single-source engine (dijkstra.ts)\<close>

text \<open>
  The local variables of \<open>generateDijkstraSteps\<close>, and \<open>out\<close>, the steps the generator
  has yielded so far: \<open>yield s\<close> is \<open>emit s\<close>.
\<close>

record dstate = vars +
  pq :: heap
  out :: "step list"

definition emit :: "step \<Rightarrow> 'a dstate_scheme \<Rightarrow> 'a dstate_scheme" where
  "emit s st = st\<lparr>out := out st @ [s]\<rparr>"

definition dijkstra_init :: "graph \<Rightarrow> string \<Rightarrow> string option \<Rightarrow> dstate" where
  "dijkstra_init g sourceId targetId =
     (let ds = fold (\<lambda>(nodeId, n). AList.update nodeId (if nodeId = sourceId then Num 0 else PosInf)) (nodes g) [];
          ps = fold (\<lambda>(nodeId, n). AList.update nodeId None) (nodes g) [];
          ns0 = fold (\<lambda>(nodeId, n). AList.update nodeId (if nodeId = sourceId then NStart else NDefault)) (nodes g) [];
          ns = (case targetId of
                  Some t \<Rightarrow> if t \<noteq> [] then AList.update t NEnd ns0 else ns0
                | None \<Rightarrow> ns0);
          es = fold (\<lambda>(edgeId, e). AList.update edgeId EDefault) (edges g) []
      in \<lparr>distances = ds, predecessors = ps, visited = [], nodeStates = ns, edgeStates = es,
          pq = enqueue [] sourceId (Num 0), out = []\<rparr>)"

definition init_step :: "string \<Rightarrow> dstate \<Rightarrow> step" where
  "init_step sourceId st =
     mk_step Init None st (pq st) 0
       [Lit ''Starting Dijkstra's algorithm from node '', Str sourceId,
        Lit ''. All distances are set to infinity except the source, which is 0.'']
       [Lit ''Initialization: dist['', Str sourceId, Lit ''] = 0, dist[v] = '', Sym 8734,
        Lit '' for all v '', Sym 8800, Lit '' '', Str sourceId,
        Lit ''. Priority queue contains all vertices.'']"

definition select_step :: "string \<Rightarrow> dstate \<Rightarrow> step" where
  "select_step currentId st =
     mk_step SelectNode (Some currentId) st (pq st) 8
       [Lit ''Selecting node '', Str currentId,
        Lit '' because it has the smallest known distance ('',
        NumF (num_get (distances st) currentId), Lit '').'']
       [Lit ''Extract-min: u = '', Str currentId, Lit '' with dist[u] = '',
        NumF (num_get (distances st) currentId), Lit ''. This distance is now final.'']"

definition path_found_step :: "string \<Rightarrow> string \<Rightarrow> string list \<Rightarrow> dstate \<Rightarrow> step" where
  "path_found_step currentId targetId path st =
     (mk_step PathFound (Some currentId) st (pq st) 16
        [Lit ''Found the shortest path to '', Str targetId, Lit ''! Total distance: '',
         NumF (num_get (distances st) targetId), Lit ''.'']
        [Lit ''Target reached. Shortest path: '', Joined path, Lit '' with total weight '',
         NumF (num_get (distances st) targetId), Lit ''.''])
     \<lparr>shortestPath := Some path, totalDistance := Some (num_get (distances st) targetId)\<rparr>"

definition mark_visited_step :: "string \<Rightarrow> dstate \<Rightarrow> step" where
  "mark_visited_step currentId st =
     mk_step MarkVisited (Some currentId) st (pq st) 9
       [Lit ''Node '', Str currentId,
        Lit '' is now permanently visited. We've found the shortest path to it.'']
       [Lit ''Remove '', Str currentId, Lit '' from Q. dist['', Str currentId, Lit ''] = '',
        NumF (num_get (distances st) currentId), Lit '' is now finalized.'']"

definition examine_step ::
  "string \<Rightarrow> string \<Rightarrow> string \<Rightarrow> real \<Rightarrow> jsnum \<Rightarrow> jsnum \<Rightarrow> jsnum \<Rightarrow> dstate \<Rightarrow> step" where
  "examine_step currentId neighborId edgeId weight currentDist oldDist newDist st =
     (mk_step ExamineEdge (Some currentId) st (pq st) 11
        [Lit ''Looking at neighbor '', Str neighborId, Lit ''. Current path to it costs '',
         inf_or oldDist, Lit ''. Going through '', Str currentId, Lit '' would cost '',
         NumF newDist, Lit ''.'']
        [Lit ''Examining edge ('', Str currentId, Lit '', '', Str neighborId,
         Lit ''). alt = dist['', Str currentId, Lit ''] + w('', Str currentId, Lit '','',
         Str neighborId, Lit '') = '', NumF currentDist, Lit '' + '', NumF (Num weight),
         Lit '' = '', NumF newDist])
     \<lparr>currentEdge := Some (mk_edge edgeId currentId neighborId weight oldDist newDist
         (js_lt newDist oldDist))\<rparr>"

definition relax_step ::
  "string \<Rightarrow> string \<Rightarrow> string \<Rightarrow> real \<Rightarrow> jsnum \<Rightarrow> jsnum \<Rightarrow> dstate \<Rightarrow> step" where
  "relax_step currentId neighborId edgeId weight oldDist newDist st =
     (mk_step RelaxEdge (Some currentId) st (pq st) 14
        [Lit ''Found a shorter path to '', Str neighborId, Lit ''! Updated distance from '',
         inf_or oldDist, Lit '' to '', NumF newDist, Lit ''.'']
        [Lit ''Relaxation: '', NumF newDist, Lit '' < '', inf_or oldDist, Lit '', so dist['',
         Str neighborId, Lit ''] '', Sym 8592, Lit '' '', NumF newDist, Lit '', prev['',
         Str neighborId, Lit ''] '', Sym 8592, Lit '' '', Str currentId])
     \<lparr>currentEdge := Some (mk_edge edgeId currentId neighborId weight oldDist newDist True)\<rparr>"

definition skip_step ::
  "string \<Rightarrow> string \<Rightarrow> string \<Rightarrow> real \<Rightarrow> jsnum \<Rightarrow> jsnum \<Rightarrow> dstate \<Rightarrow> step" where
  "skip_step currentId neighborId edgeId weight oldDist newDist st =
     (mk_step SkipEdge (Some currentId) st (pq st) 13
        [Lit ''Path through '', Str currentId, Lit '' to '', Str neighborId, Lit '' costs '',
         NumF newDist, Lit '', which isn't better than the current '', NumF oldDist,
         Lit ''. No update needed.'']
        [Lit ''No relaxation: '', NumF newDist, Lit '' '', Sym 8805, Lit '' '', NumF oldDist,
         Lit '', so dist['', Str neighborId, Lit ''] remains '', NumF oldDist])
     \<lparr>currentEdge := Some (mk_edge edgeId currentId neighborId weight oldDist newDist False)\<rparr>"

definition no_path_step :: "string \<Rightarrow> string \<Rightarrow> dstate \<Rightarrow> step" where
  "no_path_step sourceId targetId st =
     mk_step NoPath None st [] 16
       [Lit ''No path exists from '', Str sourceId, Lit '' to '', Str targetId, Lit ''.'']
       [Lit ''Algorithm terminated. Target '', Str targetId, Lit '' unreachable from '',
        Str sourceId, Lit ''.'']"

definition complete_step :: "string \<Rightarrow> dstate \<Rightarrow> step" where
  "complete_step sourceId st =
     mk_step Complete None st [] 16
       [Lit ''Dijkstra's algorithm complete! Found shortest paths from '', Str sourceId,
        Lit '' to all reachable nodes.'']
       [Lit ''Algorithm terminated. Single-source shortest paths computed for all vertices reachable from '',
        Str sourceId, Lit ''.'']"

text \<open>One round of the loop over the neighbors of the current node.\<close>

definition dijkstra_neighbor ::
  "string option \<Rightarrow> string \<Rightarrow> string \<times> string \<times> real \<Rightarrow> dstate \<Rightarrow> dstate" where
  "dijkstra_neighbor targetId currentId nb st =
     (case nb of (neighborId, edgeId, weight) \<Rightarrow>
        if set_has (visited st) neighborId then st
        else
          (let currentDist = num_get (distances st) currentId;
               oldDist = num_get (distances st) neighborId;
               newDist = js_add currentDist (Num weight);
               st1 = st\<lparr>edgeStates := AList.update edgeId EConsidering (edgeStates st)\<rparr>;
               st2 = emit (examine_step currentId neighborId edgeId weight currentDist oldDist newDist st1) st1
           in if js_lt newDist oldDist then
                (let st3 = st2\<lparr>distances := AList.update neighborId newDist (distances st2),
                               predecessors := AList.update neighborId (Some currentId) (predecessors st2),
                               pq := enqueue (pq st2) neighborId newDist,
                               edgeStates := AList.update edgeId ERelaxed (edgeStates st2)\<rparr>;
                     st4 = (if Some neighborId \<noteq> targetId
                            then st3\<lparr>nodeStates := AList.update neighborId NInQueue (nodeStates st3)\<rparr>
                            else st3)
                 in emit (relax_step currentId neighborId edgeId weight oldDist newDist st4) st4)
              else
                (let st3 = st2\<lparr>edgeStates := AList.update edgeId ERejected (edgeStates st2)\<rparr>;
                     st4 = emit (skip_step currentId neighborId edgeId weight oldDist newDist st3) st3
                 in st4\<lparr>edgeStates := AList.update edgeId EDefault (edgeStates st4)\<rparr>)))"

text \<open>What follows the loop once the queue is empty.\<close>

definition dijkstra_finish :: "string \<Rightarrow> string option \<Rightarrow> dstate \<Rightarrow> dstate" where
  "dijkstra_finish sourceId targetId st =
     (case targetId of
        Some t \<Rightarrow>
          if t \<noteq> [] \<and> \<not> set_has (visited st) t then emit (no_path_step sourceId t st) st
          else emit (complete_step sourceId st) st
      | None \<Rightarrow> emit (complete_step sourceId st) st)"

text \<open>The branch \<open>if (targetId && currentId === targetId)\<close>, up to its \<open>return\<close>.\<close>

definition dijkstra_target :: "graph \<Rightarrow> string \<Rightarrow> string \<Rightarrow> dstate \<Rightarrow> dstate option" where
  "dijkstra_target g sourceId targetId st =
     (let st1 = st\<lparr>visited := set_add targetId (visited st),
                    nodeStates := AList.update targetId NEnd (nodeStates st)\<rparr>
      in (case reconstructPath (predecessors st1) targetId of
            None \<Rightarrow> None
          | Some path \<Rightarrow>
              (let st2 = mark_path g sourceId path st1
               in Some (emit (path_found_step targetId targetId path st2) st2))))"

text \<open>The body of the main loop after a node that is not yet visited has been selected
  and is not the target: mark it visited and examine its neighbors.\<close>

definition dijkstra_visit :: "store \<Rightarrow> graph \<Rightarrow> string \<Rightarrow> string option \<Rightarrow> string \<Rightarrow> dstate \<Rightarrow> dstate" where
  "dijkstra_visit h g sourceId targetId currentId st =
     (let st1 = st\<lparr>visited := set_add currentId (visited st)\<rparr>;
          st2 = (if currentId \<noteq> sourceId \<and> Some currentId \<noteq> targetId
                 then st1\<lparr>nodeStates := AList.update currentId NVisited (nodeStates st1)\<rparr>
                 else st1);
          st3 = emit (mark_visited_step currentId st2) st2;
          st4 = fold (dijkstra_neighbor targetId currentId) (getNeighbors h g currentId) st3
      in st4\<lparr>edgeStates := reset_relaxed (edgeStates st4)\<rparr>)"

text \<open>The first part of the body: mark the selected node as current and yield.\<close>

definition dijkstra_select :: "string \<Rightarrow> string option \<Rightarrow> string \<Rightarrow> dstate \<Rightarrow> dstate" where
  "dijkstra_select sourceId targetId currentId st =
     (let st1 = (if currentId \<noteq> sourceId \<and> Some currentId \<noteq> targetId
                 then st\<lparr>nodeStates := AList.update currentId NCurrent (nodeStates st)\<rparr>
                 else st)
      in emit (select_step currentId st1) st1)"

subsection \<open>The main loop and its termination\<close>

lemma emit_simps [simp]:
  "visited (emit s st) = visited st" "distances (emit s st) = distances st"
  "predecessors (emit s st) = predecessors st" "pq (emit s st) = pq st"
  "nodeStates (emit s st) = nodeStates st" "edgeStates (emit s st) = edgeStates st"
  "out (emit s st) = out st @ [s]" "dstate.more (emit s st) = dstate.more st"
  by (simp_all add: emit_def)

lemma num_get_defined: "js_lt a (num_get m k) \<Longrightarrow> k \<in> fst ` set m"
  by (cases "map_of m k") (auto simp: num_get_def dest!: map_of_SomeD intro: rev_image_eqI)

lemma dijkstra_neighbor_frame:
  "visited (dijkstra_neighbor t c nb st) = visited st"
  "fst ` set (distances (dijkstra_neighbor t c nb st)) = fst ` set (distances st)"
  "fst ` set (pq (dijkstra_neighbor t c nb st)) \<subseteq> fst ` set (pq st) \<union> fst ` set (distances st)"
proof -
  obtain n e w where nb: "nb = (n, e, w)" by (cases nb)
  note d = num_get_defined[of "js_add (num_get (distances st) c) (Num w)" "distances st" n]
  show "visited (dijkstra_neighbor t c nb st) = visited st"
    by (simp add: dijkstra_neighbor_def nb Let_def)
  show "fst ` set (distances (dijkstra_neighbor t c nb st)) = fst ` set (distances st)"
    using d by (auto simp: dijkstra_neighbor_def nb Let_def AList.dom_update)
  show "fst ` set (pq (dijkstra_neighbor t c nb st)) \<subseteq> fst ` set (pq st) \<union> fst ` set (distances st)"
    using d by (auto simp: dijkstra_neighbor_def nb Let_def set_enqueue)
qed

lemma dijkstra_neighbors_visited: "visited (fold (dijkstra_neighbor t c) nbs st) = visited st"
  by (induction nbs arbitrary: st) (simp_all add: dijkstra_neighbor_frame(1))

lemma dijkstra_neighbors_keys:
  "fst ` set (distances (fold (dijkstra_neighbor t c) nbs st)) = fst ` set (distances st)"
  by (induction nbs arbitrary: st) (simp_all add: dijkstra_neighbor_frame(2))

lemma dijkstra_neighbors_pq:
  "fst ` set (pq (fold (dijkstra_neighbor t c) nbs st)) \<subseteq> fst ` set (pq st) \<union> fst ` set (distances st)"
proof (induction nbs arbitrary: st)
  case Nil
  show ?case by simp
next
  case (Cons nb nbs)
  have "fst ` set (pq (fold (dijkstra_neighbor t c) nbs (dijkstra_neighbor t c nb st)))
          \<subseteq> fst ` set (pq (dijkstra_neighbor t c nb st)) \<union> fst ` set (distances st)"
    using Cons.IH[of "dijkstra_neighbor t c nb st"] by (simp only: dijkstra_neighbor_frame(2))
  also have "\<dots> \<subseteq> fst ` set (pq st) \<union> fst ` set (distances st)"
    using dijkstra_neighbor_frame(3)[of t c nb st] by blast
  finally show ?case by simp
qed

lemma dijkstra_select_frame [simp]:
  "visited (dijkstra_select s t c st) = visited st"
  "distances (dijkstra_select s t c st) = distances st"
  "pq (dijkstra_select s t c st) = pq st"
  "predecessors (dijkstra_select s t c st) = predecessors st"
  by (simp_all add: dijkstra_select_def Let_def)

lemma dijkstra_visit_unfold:
  "dijkstra_visit h g s t c st =
     (let st3 = emit (mark_visited_step c
                  (if c \<noteq> s \<and> Some c \<noteq> t
                   then st\<lparr>visited := set_add c (visited st), nodeStates := AList.update c NVisited (nodeStates st)\<rparr>
                   else st\<lparr>visited := set_add c (visited st)\<rparr>))
                  (if c \<noteq> s \<and> Some c \<noteq> t
                   then st\<lparr>visited := set_add c (visited st), nodeStates := AList.update c NVisited (nodeStates st)\<rparr>
                   else st\<lparr>visited := set_add c (visited st)\<rparr>);
          st4 = fold (dijkstra_neighbor t c) (getNeighbors h g c) st3
      in st4\<lparr>edgeStates := reset_relaxed (edgeStates st4)\<rparr>)"
  by (simp add: dijkstra_visit_def Let_def)

lemma dijkstra_visit_frame:
  "set (visited (dijkstra_visit h g s t c st)) = insert c (set (visited st))"
  "fst ` set (distances (dijkstra_visit h g s t c st)) = fst ` set (distances st)"
  "fst ` set (pq (dijkstra_visit h g s t c st)) \<subseteq> fst ` set (pq st) \<union> fst ` set (distances st)"
proof -
  define st1 where "st1 = st\<lparr>visited := set_add c (visited st)\<rparr>"
  define st2 where "st2 = (if c \<noteq> s \<and> Some c \<noteq> t
                 then st1\<lparr>nodeStates := AList.update c NVisited (nodeStates st1)\<rparr>
                 else st1)"
  define st3 where "st3 = emit (mark_visited_step c st2) st2"
  define st4 where "st4 = fold (dijkstra_neighbor t c) (getNeighbors h g c) st3"
  have v: "dijkstra_visit h g s t c st = st4\<lparr>edgeStates := reset_relaxed (edgeStates st4)\<rparr>"
    unfolding dijkstra_visit_def st1_def st2_def st3_def st4_def Let_def ..
  have s2: "visited st2 = set_add c (visited st)" "distances st2 = distances st" "pq st2 = pq st"
    by (simp_all add: st2_def st1_def)
  have s3: "visited st3 = set_add c (visited st)" "distances st3 = distances st" "pq st3 = pq st"
    by (simp_all add: st3_def s2)
  show "set (visited (dijkstra_visit h g s t c st)) = insert c (set (visited st))"
    by (auto simp: v st4_def dijkstra_neighbors_visited s3 set_add_def)
  show "fst ` set (distances (dijkstra_visit h g s t c st)) = fst ` set (distances st)"
    by (simp add: v st4_def dijkstra_neighbors_keys s3)
  show "fst ` set (pq (dijkstra_visit h g s t c st)) \<subseteq> fst ` set (pq st) \<union> fst ` set (distances st)"
    using dijkstra_neighbors_pq[of t c "getNeighbors h g c" st3] by (simp add: v st4_def s3)
qed

text \<open>The ids that can still be selected: in the queue or known to \<open>distances\<close>, and not
  yet visited. Each round of the main loop either selects one of them or drops a stale
  entry of the queue.\<close>

definition unvisited_ids :: "'a dstate_scheme \<Rightarrow> string set" where
  "unvisited_ids st = (fst ` set (pq st) \<union> fst ` set (distances st)) - set (visited st)"

lemma finite_unvisited_ids [simp]: "finite (unvisited_ids st)"
  by (simp add: unvisited_ids_def)

lemma loop_measure_stale:
  assumes "set (pq st') \<subseteq> set (pq st)" "length (pq st') < length (pq st)"
    "distances st' = distances st" "visited st' = visited st"
  shows "((card (unvisited_ids st'), length (pq st')), (card (unvisited_ids st), length (pq st)))
           \<in> less_than <*lex*> less_than"
proof -
  have "fst ` set (pq st') \<subseteq> fst ` set (pq st)" using assms(1) by (rule image_mono)
  then have "unvisited_ids st' \<subseteq> unvisited_ids st" unfolding unvisited_ids_def assms(3,4) by auto
  then have "card (unvisited_ids st') \<le> card (unvisited_ids st)" by (simp add: card_mono)
  then show ?thesis using assms(2) by auto
qed

lemma loop_measure_visit:
  assumes "c \<in> fst ` set (pq st)" "c \<notin> set (visited st)"
    "set (visited st') = insert c (set (visited st))"
    "fst ` set (distances st') = fst ` set (distances st)"
    "fst ` set (pq st') \<subseteq> fst ` set (pq st) \<union> fst ` set (distances st)"
  shows "((card (unvisited_ids st'), length (pq st')), (card (unvisited_ids st), length (pq st)))
           \<in> less_than <*lex*> less_than"
proof -
  have "unvisited_ids st' \<subset> unvisited_ids st"
  proof
    show "unvisited_ids st' \<subseteq> unvisited_ids st"
      unfolding unvisited_ids_def assms(3,4) using assms(5) by blast
    have "c \<in> unvisited_ids st" using assms(1,2) by (simp add: unvisited_ids_def)
    moreover have "c \<notin> unvisited_ids st'" using assms(3) by (simp add: unvisited_ids_def)
    ultimately show "unvisited_ids st' \<noteq> unvisited_ids st" by auto
  qed
  then have "card (unvisited_ids st') < card (unvisited_ids st)" by (simp add: psubset_card_mono)
  then show ?thesis by simp
qed

text \<open>
  \<open>while (!pq.isEmpty()) { const currentId = pq.dequeue()!; ... }\<close>. The result is the
  list of the steps yielded when the generator returns, \<open>None\<close> if it never returns.
  The branch for \<open>dequeue\<close> returning nothing is not reached: the queue is not empty.
\<close>

function dijkstra_loop :: "store \<Rightarrow> graph \<Rightarrow> string \<Rightarrow> string option \<Rightarrow> dstate \<Rightarrow> step list option" where
  "dijkstra_loop h g sourceId targetId st =
     (if isEmpty (pq st) then Some (out (dijkstra_finish sourceId targetId st))
      else
        (case dequeue (pq st) of
           (None, pq1) \<Rightarrow> Some (out (dijkstra_finish sourceId targetId st))
         | (Some currentId, pq1) \<Rightarrow>
             (let st1 = st\<lparr>pq := pq1\<rparr>
              in if set_has (visited st1) currentId then dijkstra_loop h g sourceId targetId st1
                 else
                   (let st2 = dijkstra_select sourceId targetId currentId st1
                    in if truthy targetId \<and> Some currentId = targetId
                       then map_option out (dijkstra_target g sourceId currentId st2)
                       else dijkstra_loop h g sourceId targetId
                              (dijkstra_visit h g sourceId targetId currentId st2)))))"
  by pat_completeness auto
termination
proof (relation "inv_image (less_than <*lex*> less_than)
         (\<lambda>(h, g, s, t, st). (card (unvisited_ids st), length (pq st)))", goal_cases)
  case 1
  show ?case by (intro wf_inv_image wf_lex_prod wf_less_than)
next
  case (2 h g sourceId targetId st x1 pq1 currentId st1)
  then have dq: "dequeue (pq st) = (Some currentId, pq1)" by simp
  have st1: "st1 = st\<lparr>pq := pq1\<rparr>" using 2 by simp
  from dequeue_Some[OF 2(1) dq] have "set (pq st1) \<subseteq> set (pq st)" "length (pq st1) < length (pq st)"
    by (simp_all add: st1)
  from loop_measure_stale[OF this] show ?case by (simp add: st1)
next
  case (3 h g sourceId targetId st x1 pq1 currentId st1 st2)
  then have dq: "dequeue (pq st) = (Some currentId, pq1)" by simp
  have st1: "st1 = st\<lparr>pq := pq1\<rparr>" using 3 by simp
  have st2: "st2 = dijkstra_select sourceId targetId currentId st1" using 3 by simp
  from dequeue_Some[OF 3(1) dq] have cin: "currentId \<in> fst ` set (pq st)" and sub: "set pq1 \<subseteq> set (pq st)" by auto
  have "\<not> set_has (visited st1) currentId" using 3 by blast
  then have nv: "currentId \<notin> set (visited st)" by (simp add: set_has_def st1)
  let ?st' = "dijkstra_visit h g sourceId targetId currentId st2"
  have a: "set (visited ?st') = insert currentId (set (visited st))"
    and b: "fst ` set (distances ?st') = fst ` set (distances st)"
    and c: "fst ` set (pq ?st') \<subseteq> fst ` set pq1 \<union> fst ` set (distances st)"
    using dijkstra_visit_frame[of h g sourceId targetId currentId st2] by (simp_all add: st1 st2)
  have "fst ` set pq1 \<subseteq> fst ` set (pq st)" using sub by (rule image_mono)
  then have c': "fst ` set (pq ?st') \<subseteq> fst ` set (pq st) \<union> fst ` set (distances st)" using c by blast
  from loop_measure_visit[OF cin nv a b c'] show ?case by simp
qed

declare dijkstra_loop.simps [simp del]

definition generateDijkstraSteps :: "store \<Rightarrow> graph \<Rightarrow> string \<Rightarrow> string option \<Rightarrow> step list option" where
  "generateDijkstraSteps h g sourceId targetId =
     (let st = dijkstra_init g sourceId targetId
      in dijkstra_loop h g sourceId targetId (emit (init_step sourceId st) st))"

section \<open>The heuristic engine (astar.ts)\<close>

text \<open>
  What the generator throws. \<open>NodeNotFound\<close> is the \<open>Error\<close> thrown for a target that
  is not in the graph. \<open>TypeError\<close> is what the runtime raises when a property of
  \<open>undefined\<close> is read: \<open>toFixed\<close> of a missing score, \<open>nodeA.x\<close> of a missing node.
\<close>

datatype error = NodeNotFound string | TypeError

text \<open>
  A heuristic is a function of two nodes. The engine passes it what \<open>graph.nodes.get\<close>
  returns, which is \<open>undefined\<close> for a missing id (\<open>None\<close>); it returns a number or
  throws.
\<close>

type_synonym heuristic = "node option \<Rightarrow> node option \<Rightarrow> error + jsnum"

definition euclideanDistance :: heuristic where
  "euclideanDistance nodeA nodeB =
     (case nodeA of
        None \<Rightarrow> Inl TypeError
      | Some a \<Rightarrow>
          (case nodeB of
             None \<Rightarrow> Inl TypeError
           | Some b \<Rightarrow>
               (let dx = js_sub (Num (n_x a)) (Num (n_x b));
                    dy = js_sub (Num (n_y a)) (Num (n_y b))
                in Inr (js_div (js_sqrt (js_add (js_mul dx dx) (js_mul dy dy))) (Num 50)))))"

definition manhattanDistance :: heuristic where
  "manhattanDistance nodeA nodeB =
     (case nodeA of
        None \<Rightarrow> Inl TypeError
      | Some a \<Rightarrow>
          (case nodeB of
             None \<Rightarrow> Inl TypeError
           | Some b \<Rightarrow>
               Inr (js_div (js_add (js_abs (js_sub (Num (n_x a)) (Num (n_x b))))
                                   (js_abs (js_sub (Num (n_y a)) (Num (n_y b))))) (Num 50))))"

text \<open>
  The local variables of \<open>generateAStarSteps\<close>: those of the single-source engine
  (\<open>distances\<close> is \<open>gScore\<close>, \<open>pq\<close> is \<open>openSet\<close>) with \<open>fScore\<close> and \<open>inOpenSet\<close>.
\<close>

record astate = dstate +
  fScore :: "(string \<times> jsnum) list"
  inOpenSet :: "string list"

definition astar_init :: "graph \<Rightarrow> string \<Rightarrow> string \<Rightarrow> jsnum \<Rightarrow> astate" where
  "astar_init g sourceId targetId hValue =
     (let gs0 = fold (\<lambda>(nodeId, n). AList.update nodeId PosInf) (nodes g) [];
          fs0 = fold (\<lambda>(nodeId, n). AList.update nodeId PosInf) (nodes g) [];
          ps = fold (\<lambda>(nodeId, n). AList.update nodeId None) (nodes g) [];
          ns0 = fold (\<lambda>(nodeId, n). AList.update nodeId NDefault) (nodes g) [];
          es = fold (\<lambda>(edgeId, e). AList.update edgeId EDefault) (edges g) []
      in \<lparr>distances = AList.update sourceId (Num 0) gs0, predecessors = ps, visited = [],
          nodeStates = AList.update targetId NEnd (AList.update sourceId NStart ns0),
          edgeStates = es, pq = enqueue [] sourceId hValue, out = [],
          fScore = AList.update sourceId hValue fs0, inOpenSet = set_add sourceId []\<rparr>)"

definition astar_init_step :: "string \<Rightarrow> string \<Rightarrow> jsnum \<Rightarrow> astate \<Rightarrow> step" where
  "astar_init_step sourceId targetId hValue st =
     mk_step Init None st (pq st) 0
       [Lit ''Starting A* from '', Str sourceId, Lit '' to '', Str targetId,
        Lit ''. We use a heuristic to guide our search toward the goal more efficiently than Dijkstra.'']
       [Lit ''Init: g('', Str sourceId, Lit '')=0, f('', Str sourceId, Lit '')=h('', Str sourceId,
        Lit '','', Str targetId, Lit '')='', Fixed1 hValue, Lit ''. Open set: {'',
        Str sourceId, Lit ''}.'']"

definition astar_select_step :: "string \<Rightarrow> jsnum \<Rightarrow> jsnum \<Rightarrow> jsnum \<Rightarrow> astate \<Rightarrow> step" where
  "astar_select_step currentId currentF currentG currentH st =
     mk_step SelectNode (Some currentId) st (pq st) 8
       [Lit ''Selecting node '', Str currentId, Lit '' because it has the lowest f-score ('',
        Fixed1 currentF, Lit ''). This combines actual distance ('', Fixed1 currentG,
        Lit '') + estimated remaining ('', Fixed1 currentH, Lit '').'']
       [Lit ''Pop '', Str currentId, Lit '': f='', Fixed1 currentF, Lit '' = g('',
        Fixed1 currentG, Lit '') + h('', Fixed1 currentH, Lit '')'']"

text \<open>\<open>x?.toFixed(1)\<close> inside a template.\<close>

definition fixed_opt :: "jsnum \<Rightarrow> frag" where
  "fixed_opt v = (if v = Undefined then NumF Undefined else Fixed1 v)"

definition astar_path_found_step :: "string \<Rightarrow> string \<Rightarrow> string list \<Rightarrow> astate \<Rightarrow> step" where
  "astar_path_found_step currentId targetId path st =
     (mk_step PathFound (Some currentId) st (pq st) 10
        [Lit ''Found the shortest path! Total distance: '', fixed_opt (num_get (distances st) targetId),
         Lit ''. A* found this by prioritizing nodes that seem closer to the goal.'']
        [Lit ''Path found: '', Joined path, Lit ''. Cost: '', fixed_opt (num_get (distances st) targetId),
         Lit ''. Nodes explored: '', NumF (Num (real (length (visited st) + 1))), Lit ''.''])
     \<lparr>shortestPath := Some path, totalDistance := Some (num_get (distances st) targetId)\<rparr>"

definition astar_examine_step ::
  "string \<Rightarrow> string \<Rightarrow> string \<Rightarrow> real \<Rightarrow> jsnum \<Rightarrow> jsnum \<Rightarrow> astate \<Rightarrow> step" where
  "astar_examine_step currentId neighborId edgeId weight currentNeighborG tentativeG st =
     (mk_step ExamineEdge (Some currentId) st (pq st) 14
        [Lit ''Checking neighbor '', Str neighborId, Lit ''. Path through '', Str currentId,
         Lit '' would cost '', Fixed1 tentativeG, Lit '', current best is '',
         (if currentNeighborG = PosInf then Sym 8734 else Fixed1 currentNeighborG), Lit ''.'']
        [Lit ''Edge ('', Str currentId, Lit '','', Str neighborId, Lit ''): tentative_g = '',
         Fixed1 (num_get (distances st) currentId), Lit '' + '', NumF (Num weight), Lit '' = '',
         Fixed1 tentativeG])
     \<lparr>currentEdge := Some (mk_edge edgeId currentId neighborId weight currentNeighborG tentativeG
         (js_lt tentativeG currentNeighborG))\<rparr>"

definition astar_relax_step ::
  "string \<Rightarrow> string \<Rightarrow> string \<Rightarrow> real \<Rightarrow> jsnum \<Rightarrow> jsnum \<Rightarrow> jsnum \<Rightarrow> jsnum \<Rightarrow> astate \<Rightarrow> step" where
  "astar_relax_step currentId neighborId edgeId weight currentNeighborG tentativeG hv f st =
     (mk_step RelaxEdge (Some currentId) st (pq st) 17
        [Lit ''Found better path to '', Str neighborId, Lit ''! g='', Fixed1 tentativeG,
         Lit '', h='', Fixed1 hv, Lit '', f='', Fixed1 f]
        [Lit ''Update: g['', Str neighborId, Lit '']='', Fixed1 tentativeG, Lit '', f['',
         Str neighborId, Lit '']='', Fixed1 f, Lit '', prev['', Str neighborId, Lit '']='',
         Str currentId])
     \<lparr>currentEdge := Some (mk_edge edgeId currentId neighborId weight currentNeighborG tentativeG True)\<rparr>"

definition astar_skip_step ::
  "string \<Rightarrow> string \<Rightarrow> string \<Rightarrow> real \<Rightarrow> jsnum \<Rightarrow> jsnum \<Rightarrow> astate \<Rightarrow> step" where
  "astar_skip_step currentId neighborId edgeId weight currentNeighborG tentativeG st =
     (mk_step SkipEdge (Some currentId) st (pq st) 15
        [Lit ''Path through '', Str currentId, Lit '' to '', Str neighborId,
         Lit '' isn't better. Keeping current path.'']
        [Lit ''No update: '', Fixed1 tentativeG, Lit '' '', Sym 8805, Lit '' '',
         Fixed1 currentNeighborG])
     \<lparr>currentEdge := Some (mk_edge edgeId currentId neighborId weight currentNeighborG tentativeG False)\<rparr>"

definition astar_no_path_step :: "string \<Rightarrow> string \<Rightarrow> astate \<Rightarrow> step" where
  "astar_no_path_step sourceId targetId st =
     mk_step NoPath None st [] 21
       [Lit ''No path exists from '', Str sourceId, Lit '' to '', Str targetId, Lit ''.'']
       [Lit ''Open set empty. Target '', Str targetId, Lit '' unreachable.'']"

text \<open>One round of the loop over the neighbors of the current node; \<open>Some e\<close> when it
  throws. The templates of the steps call \<open>toFixed\<close> on the two scores and on the value of
  the heuristic.\<close>

definition astar_neighbor ::
  "graph \<Rightarrow> heuristic \<Rightarrow> node \<Rightarrow> string \<Rightarrow> string \<Rightarrow> string \<times> string \<times> real
     \<Rightarrow> astate \<Rightarrow> astate \<times> error option" where
  "astar_neighbor g heuristic targetNode targetId currentId nb st =
     (case nb of (neighborId, edgeId, weight) \<Rightarrow>
        if set_has (visited st) neighborId then (st, None)
        else
          (let neighborNode = map_of (nodes g) neighborId;
               tentativeG = js_add (num_get (distances st) currentId) (Num weight);
               currentNeighborG = num_get (distances st) neighborId;
               st1 = st\<lparr>edgeStates := AList.update edgeId EConsidering (edgeStates st)\<rparr>
           in if currentNeighborG = Undefined \<or> num_get (distances st1) currentId = Undefined
              then (st1, Some TypeError)
              else
                (let st2 = emit (astar_examine_step currentId neighborId edgeId weight currentNeighborG tentativeG st1) st1
                 in if js_lt tentativeG currentNeighborG then
                      (case heuristic neighborNode (Some targetNode) of
                         Inl e \<Rightarrow> (st2, Some e)
                       | Inr hv \<Rightarrow>
                          (let f = js_add tentativeG hv;
                               st3 = st2\<lparr>predecessors := AList.update neighborId (Some currentId) (predecessors st2),
                                          distances := AList.update neighborId tentativeG (distances st2),
                                          fScore := AList.update neighborId f (fScore st2),
                                          edgeStates := AList.update edgeId ERelaxed (edgeStates st2)\<rparr>;
                               st4 = (if \<not> set_has (inOpenSet st3) neighborId
                                      then st3\<lparr>pq := enqueue (pq st3) neighborId f,
                                               inOpenSet := set_add neighborId (inOpenSet st3)\<rparr>
                                      else st3);
                               st5 = (if neighborId \<noteq> targetId
                                      then st4\<lparr>nodeStates := AList.update neighborId NInQueue (nodeStates st4)\<rparr>
                                      else st4)
                           in if hv = Undefined then (st5, Some TypeError)
                              else (emit (astar_relax_step currentId neighborId edgeId weight currentNeighborG tentativeG hv f st5) st5, None)))
                    else
                      (let st3 = st2\<lparr>edgeStates := AList.update edgeId ERejected (edgeStates st2)\<rparr>;
                           st4 = emit (astar_skip_step currentId neighborId edgeId weight currentNeighborG tentativeG st3) st3
                       in (st4\<lparr>edgeStates := AList.update edgeId EDefault (edgeStates st4)\<rparr>, None)))))"

fun astar_neighbors ::
  "graph \<Rightarrow> heuristic \<Rightarrow> node \<Rightarrow> string \<Rightarrow> string \<Rightarrow> (string \<times> string \<times> real) list
     \<Rightarrow> astate \<Rightarrow> astate \<times> error option" where
  "astar_neighbors g heuristic targetNode targetId currentId [] st = (st, None)"
| "astar_neighbors g heuristic targetNode targetId currentId (nb # nbs) st =
     (case astar_neighbor g heuristic targetNode targetId currentId nb st of
        (st1, Some e) \<Rightarrow> (st1, Some e)
      | (st1, None) \<Rightarrow> astar_neighbors g heuristic targetNode targetId currentId nbs st1)"

text \<open>The first part of the body of the main loop: mark the selected node and yield.\<close>

definition astar_select ::
  "graph \<Rightarrow> heuristic \<Rightarrow> node \<Rightarrow> string \<Rightarrow> string \<Rightarrow> string \<Rightarrow> astate
     \<Rightarrow> astate \<times> error option" where
  "astar_select g heuristic targetNode sourceId targetId currentId st =
     (let currentNode = map_of (nodes g) currentId;
          st1 = (if currentId \<noteq> sourceId \<and> currentId \<noteq> targetId
                 then st\<lparr>nodeStates := AList.update currentId NCurrent (nodeStates st)\<rparr>
                 else st);
          currentF = num_get (fScore st1) currentId;
          currentG = num_get (distances st1) currentId
      in (case heuristic currentNode (Some targetNode) of
            Inl e \<Rightarrow> (st1, Some e)
          | Inr currentH \<Rightarrow>
              if currentF = Undefined \<or> currentG = Undefined \<or> currentH = Undefined
              then (st1, Some TypeError)
              else (emit (astar_select_step currentId currentF currentG currentH st1) st1, None)))"

text \<open>The branch \<open>if (currentId === targetId)\<close>, up to its \<open>return\<close>.\<close>

definition astar_target :: "graph \<Rightarrow> string \<Rightarrow> string \<Rightarrow> astate \<Rightarrow> astate option" where
  "astar_target g sourceId targetId st =
     (case reconstructPath (predecessors st) targetId of
        None \<Rightarrow> None
      | Some path \<Rightarrow>
          (let st1 = mark_path g sourceId path st;
               st2 = st1\<lparr>nodeStates := AList.update targetId NEnd (nodeStates st1)\<rparr>
           in Some (emit (astar_path_found_step targetId targetId path st2) st2)))"

text \<open>The rest of the body: close the node and examine its neighbors.\<close>

definition astar_visit ::
  "store \<Rightarrow> graph \<Rightarrow> heuristic \<Rightarrow> node \<Rightarrow> string \<Rightarrow> string \<Rightarrow> string \<Rightarrow> astate
     \<Rightarrow> astate \<times> error option" where
  "astar_visit h g heuristic targetNode sourceId targetId currentId st =
     (let st1 = st\<lparr>visited := set_add currentId (visited st)\<rparr>;
          st2 = (if currentId \<noteq> sourceId
                 then st1\<lparr>nodeStates := AList.update currentId NVisited (nodeStates st1)\<rparr>
                 else st1)
      in (case astar_neighbors g heuristic targetNode targetId currentId (getNeighbors h g currentId) st2 of
            (st3, Some e) \<Rightarrow> (st3, Some e)
          | (st3, None) \<Rightarrow> (st3\<lparr>edgeStates := reset_relaxed (edgeStates st3)\<rparr>, None)))"

lemma astar_neighbor_frame':
  "visited (fst (astar_neighbor g hr tn t c nb st)) = visited st"
  "fst ` set (distances (fst (astar_neighbor g hr tn t c nb st))) = fst ` set (distances st)"
  "fst ` set (pq (fst (astar_neighbor g hr tn t c nb st))) \<subseteq> fst ` set (pq st) \<union> fst ` set (distances st)"
proof -
  obtain n e w where nb: "nb = (n, e, w)" by (cases nb)
  note d = num_get_defined[of "js_add (num_get (distances st) c) (Num w)" "distances st" n]
  show "visited (fst (astar_neighbor g hr tn t c nb st)) = visited st"
    by (simp add: astar_neighbor_def nb Let_def split: sum.split)
  show "fst ` set (distances (fst (astar_neighbor g hr tn t c nb st))) = fst ` set (distances st)"
    using d by (auto simp: astar_neighbor_def nb Let_def AList.dom_update split: sum.split)
  show "fst ` set (pq (fst (astar_neighbor g hr tn t c nb st))) \<subseteq> fst ` set (pq st) \<union> fst ` set (distances st)"
    using d by (auto simp: astar_neighbor_def nb Let_def set_enqueue split: sum.split)
qed

lemma astar_neighbor_frame:
  assumes "astar_neighbor g hr tn t c nb st = (st', r)"
  shows "visited st' = visited st"
    and "fst ` set (distances st') = fst ` set (distances st)"
    and "fst ` set (pq st') \<subseteq> fst ` set (pq st) \<union> fst ` set (distances st)"
  using astar_neighbor_frame'[of g hr tn t c nb st] unfolding assms by simp_all

lemma astar_neighbors_frame:
  assumes "astar_neighbors g hr tn t c nbs st = (st', r)"
  shows "visited st' = visited st \<and> fst ` set (distances st') = fst ` set (distances st)
         \<and> fst ` set (pq st') \<subseteq> fst ` set (pq st) \<union> fst ` set (distances st)"
  using assms
proof (induction nbs arbitrary: st)
  case Nil
  then show ?case by simp
next
  case (Cons nb nbs)
  obtain st1 r1 where n1: "astar_neighbor g hr tn t c nb st = (st1, r1)" by (cases "astar_neighbor g hr tn t c nb st")
  note f = astar_neighbor_frame[OF n1]
  show ?case
  proof (cases r1)
    case None
    then have "astar_neighbors g hr tn t c nbs st1 = (st', r)" using Cons.prems n1 by simp
    from Cons.IH[OF this] have ih: "visited st' = visited st1" "fst ` set (distances st') = fst ` set (distances st1)"
      "fst ` set (pq st') \<subseteq> fst ` set (pq st1) \<union> fst ` set (distances st1)" by auto
    have "fst ` set (pq st') \<subseteq> fst ` set (pq st) \<union> fst ` set (distances st)"
      using ih(3) f(3) unfolding f(2) by blast
    then show ?thesis using ih(1,2) f(1,2) by simp
  next
    case (Some e)
    then have "st' = st1" using Cons.prems n1 by simp
    then show ?thesis using f by simp
  qed
qed

lemma astar_visit_frame:
  assumes "astar_visit h g hr tn s t c st = (st', r)"
  shows "set (visited st') = insert c (set (visited st))"
    and "fst ` set (distances st') = fst ` set (distances st)"
    and "fst ` set (pq st') \<subseteq> fst ` set (pq st) \<union> fst ` set (distances st)"
proof -
  define st1 where "st1 = st\<lparr>visited := set_add c (visited st)\<rparr>"
  define st2 where "st2 = (if c \<noteq> s then st1\<lparr>nodeStates := AList.update c NVisited (nodeStates st1)\<rparr> else st1)"
  obtain st3 r3 where n: "astar_neighbors g hr tn t c (getNeighbors h g c) st2 = (st3, r3)"
    by (cases "astar_neighbors g hr tn t c (getNeighbors h g c) st2")
  have s2: "visited st2 = set_add c (visited st)" "distances st2 = distances st" "pq st2 = pq st"
    by (simp_all add: st2_def st1_def)
  note f = astar_neighbors_frame[OF n, unfolded s2]
  have v: "astar_visit h g hr tn s t c st = (case (st3, r3) of
            (st3, Some e) \<Rightarrow> (st3, Some e)
          | (st3, None) \<Rightarrow> (st3\<lparr>edgeStates := reset_relaxed (edgeStates st3)\<rparr>, None))"
    unfolding astar_visit_def Let_def st1_def[symmetric] st2_def[symmetric] n ..
  have st': "visited st' = visited st3 \<and> distances st' = distances st3 \<and> pq st' = pq st3"
    using assms unfolding v by (cases r3) auto
  show "set (visited st') = insert c (set (visited st))" using f st' by (auto simp: set_add_def)
  show "fst ` set (distances st') = fst ` set (distances st)" using f st' by simp
  show "fst ` set (pq st') \<subseteq> fst ` set (pq st) \<union> fst ` set (distances st)" using f st' by simp
qed

lemma astar_select_frame:
  assumes "astar_select g hr tn s t c st = (st', r)"
  shows "visited st' = visited st" "distances st' = distances st" "pq st' = pq st"
  using assms by (auto simp: astar_select_def Let_def split: sum.splits if_splits)

function astar_loop ::
  "store \<Rightarrow> graph \<Rightarrow> heuristic \<Rightarrow> node \<Rightarrow> string \<Rightarrow> string \<Rightarrow> astate
     \<Rightarrow> (step list \<times> error option) option" where
  "astar_loop h g heuristic targetNode sourceId targetId st =
     (if isEmpty (pq st) then Some (out (emit (astar_no_path_step sourceId targetId st) st), None)
      else
        (case dequeue (pq st) of
           (None, pq1) \<Rightarrow> Some (out (emit (astar_no_path_step sourceId targetId st) st), None)
         | (Some currentId, pq1) \<Rightarrow>
             (let st1 = st\<lparr>pq := pq1, inOpenSet := set_delete currentId (inOpenSet st)\<rparr>
              in if set_has (visited st1) currentId
                 then astar_loop h g heuristic targetNode sourceId targetId st1
                 else
                   (case astar_select g heuristic targetNode sourceId targetId currentId st1 of
                      (st2, Some e) \<Rightarrow> Some (out st2, Some e)
                    | (st2, None) \<Rightarrow>
                        if currentId = targetId
                        then map_option (\<lambda>s. (out s, None)) (astar_target g sourceId targetId st2)
                        else
                          (case astar_visit h g heuristic targetNode sourceId targetId currentId st2 of
                             (st3, Some e) \<Rightarrow> Some (out st3, Some e)
                           | (st3, None) \<Rightarrow> astar_loop h g heuristic targetNode sourceId targetId st3)))))"
  by pat_completeness auto
termination
proof (relation "inv_image (less_than <*lex*> less_than)
         (\<lambda>(h, g, hr, tn, s, t, st). (card (unvisited_ids st), length (pq st)))", goal_cases)
  case 1
  show ?case by (intro wf_inv_image wf_lex_prod wf_less_than)
next
  case (2 h g heuristic targetNode sourceId targetId st x1 pq1 currentId st1)
  then have dq: "dequeue (pq st) = (Some currentId, pq1)" by simp
  have st1: "st1 = st\<lparr>pq := pq1, inOpenSet := set_delete currentId (inOpenSet st)\<rparr>" using 2 by simp
  from dequeue_Some[OF 2(1) dq] have "set (pq st1) \<subseteq> set (pq st)" "length (pq st1) < length (pq st)"
    by (simp_all add: st1)
  from loop_measure_stale[OF this] show ?case by (simp add: st1)
next
  case (3 h g heuristic targetNode sourceId targetId st x1 pq1 currentId st1 st2 r2 st3 r3)
  then have dq: "dequeue (pq st) = (Some currentId, pq1)" by simp
  have st1: "st1 = st\<lparr>pq := pq1, inOpenSet := set_delete currentId (inOpenSet st)\<rparr>" using 3 by simp
  have sel: "astar_select g heuristic targetNode sourceId targetId currentId st1 = (st2, r2)"
    using 3 by simp
  have vis: "astar_visit h g heuristic targetNode sourceId targetId currentId st2 = (st3, r3)"
    using 3 by simp
  from dequeue_Some[OF 3(1) dq] have cin: "currentId \<in> fst ` set (pq st)" and sub: "set pq1 \<subseteq> set (pq st)" by auto
  have "\<not> set_has (visited st1) currentId" using 3 by blast
  then have nv: "currentId \<notin> set (visited st)" by (simp add: set_has_def st1)
  note s2 = astar_select_frame[OF sel]
  have a: "set (visited st3) = insert currentId (set (visited st))"
    and b: "fst ` set (distances st3) = fst ` set (distances st)"
    and c: "fst ` set (pq st3) \<subseteq> fst ` set pq1 \<union> fst ` set (distances st)"
    using astar_visit_frame[OF vis] by (simp_all add: s2 st1)
  have "fst ` set pq1 \<subseteq> fst ` set (pq st)" using sub by (rule image_mono)
  then have c': "fst ` set (pq st3) \<subseteq> fst ` set (pq st) \<union> fst ` set (distances st)" using c by blast
  from loop_measure_visit[OF cin nv a b c'] show ?case by simp
qed

declare astar_loop.simps [simp del]

text \<open>
  The target is looked up and checked, the source is looked up and not checked
  (\<open>graph.nodes.get(sourceId)!\<close>): what the lookup returns goes to the heuristic. The
  template of the \<open>init\<close> step calls \<open>hValue.toFixed(1)\<close>.
\<close>

definition generateAStarSteps ::
  "store \<Rightarrow> graph \<Rightarrow> string \<Rightarrow> string \<Rightarrow> heuristic \<Rightarrow> (step list \<times> error option) option" where
  "generateAStarSteps h g sourceId targetId heuristic =
     (case map_of (nodes g) targetId of
        None \<Rightarrow> Some ([], Some (NodeNotFound targetId))
      | Some targetNode \<Rightarrow>
          (let sourceNode = map_of (nodes g) sourceId
           in (case heuristic sourceNode (Some targetNode) of
                 Inl e \<Rightarrow> Some ([], Some e)
               | Inr hValue \<Rightarrow>
                   (let st = astar_init g sourceId targetId hValue
                    in if hValue = Undefined then Some ([], Some TypeError)
                       else astar_loop h g heuristic targetNode sourceId targetId
                              (emit (astar_init_step sourceId targetId hValue st) st)))))"

section \<open>Running an engine (generateSteps of useAlgorithmVisualizer.ts)\<close>

datatype AlgorithmType = Dijkstra | AStar

text \<open>
  \<open>sourceId\<close> and \<open>targetId\<close> are \<open>string | null\<close>. The loop over the generator collects
  the steps; what the generator throws leaves \<open>generateSteps\<close> with it (\<open>Inl\<close>). For
  the heuristic engine a \<open>null\<close> target is passed on as it is (\<open>targetId!\<close>), and is not
  a key of \<open>graph.nodes\<close>.
\<close>

definition generateSteps ::
  "store \<Rightarrow> graph \<Rightarrow> string option \<Rightarrow> string option \<Rightarrow> AlgorithmType \<Rightarrow> (error + step list) option" where
  "generateSteps h g sourceId targetId algorithm =
     (case sourceId of
        None \<Rightarrow> Some (Inr [])
      | Some s \<Rightarrow>
          if s = [] \<or> length (nodes g) = 0 then Some (Inr [])
          else if algorithm = Dijkstra then map_option Inr (generateDijkstraSteps h g s targetId)
          else
            (case targetId of
               None \<Rightarrow> Some (Inl (NodeNotFound ''null''))
             | Some t \<Rightarrow>
                 (case generateAStarSteps h g s t euclideanDistance of
                    None \<Rightarrow> None
                  | Some (steps, Some e) \<Rightarrow> Some (Inl e)
                  | Some (steps, None) \<Rightarrow> Some (Inr steps))))"

section \<open>Reasoning about the main loops\<close>

lemma dijkstra_loop_rule:
  assumes init: "I st0"
    and stale: "\<And>st c pq1. I st \<Longrightarrow> \<not> isEmpty (pq st) \<Longrightarrow> dequeue (pq st) = (Some c, pq1)
                  \<Longrightarrow> c \<in> set (visited st) \<Longrightarrow> I (st\<lparr>pq := pq1\<rparr>)"
    and visit: "\<And>st c pq1. I st \<Longrightarrow> \<not> isEmpty (pq st) \<Longrightarrow> dequeue (pq st) = (Some c, pq1)
                  \<Longrightarrow> c \<notin> set (visited st) \<Longrightarrow> \<not> (truthy t \<and> Some c = t)
                  \<Longrightarrow> I (dijkstra_visit h g s t c (dijkstra_select s t c (st\<lparr>pq := pq1\<rparr>)))"
    and finish: "\<And>st. I st \<Longrightarrow> isEmpty (pq st) \<Longrightarrow> Q (Some (out (dijkstra_finish s t st)))"
    and target: "\<And>st c pq1. I st \<Longrightarrow> \<not> isEmpty (pq st) \<Longrightarrow> dequeue (pq st) = (Some c, pq1)
                  \<Longrightarrow> c \<notin> set (visited st) \<Longrightarrow> truthy t \<Longrightarrow> Some c = t
                  \<Longrightarrow> Q (map_option out (dijkstra_target g s c (dijkstra_select s t c (st\<lparr>pq := pq1\<rparr>))))"
  shows "Q (dijkstra_loop h g s t st0)"
  using assms
proof (induction h g s t st0 rule: dijkstra_loop.induct)
  case (1 h g s t st)
  note I = "1.prems"(1) and stale = "1.prems"(2) and visit = "1.prems"(3)
    and finish = "1.prems"(4) and target = "1.prems"(5)
  show ?case
  proof (cases "isEmpty (pq st)")
    case True
    then show ?thesis using finish[OF I] by (subst dijkstra_loop.simps) simp
  next
    case False
    obtain d pq1 where dq: "dequeue (pq st) = (d, pq1)" by (cases "dequeue (pq st)")
    with dequeue_None[OF False] obtain c where d: "d = Some c" by (cases d) auto
    note dq = dq[unfolded d]
    show ?thesis
    proof (cases "c \<in> set (visited st)")
      case True
      have "Q (dijkstra_loop h g s t (st\<lparr>pq := pq1\<rparr>))"
        proof (rule "1.IH"(1)[OF False dq[symmetric] refl refl])
        show "set_has (visited (st\<lparr>pq := pq1\<rparr>)) c" using True by (simp add: set_has_def)
        show "I (st\<lparr>pq := pq1\<rparr>)" by (rule stale[OF I False dq True])
      qed (fact stale visit finish target)+
      then show ?thesis using False dq True by (subst dijkstra_loop.simps) (simp add: set_has_def)
    next
      case nv: False
      show ?thesis
      proof (cases "truthy t \<and> Some c = t")
        case True
        then have tt: "truthy t" "t = Some c" by auto
        have "dijkstra_loop h g s t st
                = map_option out (dijkstra_target g s c (dijkstra_select s t c (st\<lparr>pq := pq1\<rparr>)))"
          using tt(1) by (subst dijkstra_loop.simps) (simp add: False dq set_has_def nv Let_def tt(2))
        then show ?thesis using target[OF I False dq nv tt(1) tt(2)[symmetric]] by simp
      next
        case nt: False
        have "Q (dijkstra_loop h g s t (dijkstra_visit h g s t c (dijkstra_select s t c (st\<lparr>pq := pq1\<rparr>))))"
        proof (rule "1.IH"(2)[OF False dq[symmetric] refl refl _ refl nt])
          show "\<not> set_has (visited (st\<lparr>pq := pq1\<rparr>)) c" using nv by (simp add: set_has_def)
          show "I (dijkstra_visit h g s t c (dijkstra_select s t c (st\<lparr>pq := pq1\<rparr>)))"
            by (rule visit[OF I False dq nv nt])
        qed (fact stale visit finish target)+
        moreover have "dijkstra_loop h g s t st
                = dijkstra_loop h g s t (dijkstra_visit h g s t c (dijkstra_select s t c (st\<lparr>pq := pq1\<rparr>)))"
          using nt by (subst dijkstra_loop.simps) (auto simp add: False dq set_has_def nv Let_def)
        ultimately show ?thesis by simp
      qed
    qed
  qed
qed

section \<open>Small graphs used as concrete inputs\<close>

definition node_at :: "string \<Rightarrow> real \<Rightarrow> real \<Rightarrow> node" where
  "node_at a px py = \<lparr>n_id = a, n_x = px, n_y = py, n_label = Some a\<rparr>"

definition edge_of :: "string \<Rightarrow> string \<Rightarrow> string \<Rightarrow> real \<Rightarrow> edge" where
  "edge_of i a b w = \<lparr>e_id = i, e_source = a, e_target = b, e_weight = w, e_directed = None\<rparr>"

text \<open>\<open>addNode(createGraph(false), A)\<close>: one node, no edge.\<close>

definition one_node :: "store \<times> graph" where
  "one_node = addNode empty_store (createGraph False) (node_at ''A'' 0 0)"

lemma one_node_eq:
  "one_node = (\<lparr>cells = (\<lambda>r. []), fresh = 1\<rparr>,
               \<lparr>nodes = [(''A'', node_at ''A'' 0 0)], edges = [], adjacencyList = [(''A'', 0)], directed = False\<rparr>)"
  by (simp add: one_node_def addNode_def createGraph_def empty_store_def ensure_set_def node_at_def Let_def fun_eq_iff)

text \<open>C4 (the edit operations leave their input graph unchanged) fails on the code:
  \<open>addEdge\<close> adds the edge id to the \<open>Set\<close> object that the input graph holds for
  the source node. After \<open>addEdge(g, e1)\<close> with \<open>g = addNode(createGraph(false), A)\<close>,
  the adjacency set of \<open>A\<close> in \<open>g\<close> itself contains \<open>e1\<close>, and \<open>g.edges\<close> does not.\<close>

theorem addEdge_changes_input_graph:
  "adjacency_view (fst one_node) (snd one_node) = [(''A'', [])] \<and>
   adjacency_view (fst (addEdge (fst one_node) (snd one_node) (edge_of ''e1'' ''A'' ''B'' 1))) (snd one_node)
     = [(''A'', [''e1''])] \<and>
   map_of (edges (snd one_node)) ''e1'' = None"
  by (simp add: one_node_eq addEdge_def ensure_set_def cell_add_def set_add_def adjacency_view_def
        edge_of_def Let_def)

lemma astar_loop_rule:
  assumes init: "I st0"
    and stale: "\<And>st c pq1. I st \<Longrightarrow> \<not> isEmpty (pq st) \<Longrightarrow> dequeue (pq st) = (Some c, pq1)
                  \<Longrightarrow> c \<in> set (visited st)
                  \<Longrightarrow> I (st\<lparr>pq := pq1, inOpenSet := set_delete c (inOpenSet st)\<rparr>)"
    and finish: "\<And>st. I st \<Longrightarrow> isEmpty (pq st)
                  \<Longrightarrow> Q (Some (out (emit (astar_no_path_step s t st) st), None))"
    and select_err: "\<And>st c pq1 st2 e. I st \<Longrightarrow> \<not> isEmpty (pq st) \<Longrightarrow> dequeue (pq st) = (Some c, pq1)
                  \<Longrightarrow> c \<notin> set (visited st)
                  \<Longrightarrow> astar_select g hr tn s t c (st\<lparr>pq := pq1, inOpenSet := set_delete c (inOpenSet st)\<rparr>) = (st2, Some e)
                  \<Longrightarrow> Q (Some (out st2, Some e))"
    and target: "\<And>st c pq1 st2. I st \<Longrightarrow> \<not> isEmpty (pq st) \<Longrightarrow> dequeue (pq st) = (Some c, pq1)
                  \<Longrightarrow> c \<notin> set (visited st)
                  \<Longrightarrow> astar_select g hr tn s t c (st\<lparr>pq := pq1, inOpenSet := set_delete c (inOpenSet st)\<rparr>) = (st2, None)
                  \<Longrightarrow> c = t
                  \<Longrightarrow> Q (map_option (\<lambda>s. (out s, None)) (astar_target g s t st2))"
    and visit_err: "\<And>st c pq1 st2 st3 e. I st \<Longrightarrow> \<not> isEmpty (pq st) \<Longrightarrow> dequeue (pq st) = (Some c, pq1)
                  \<Longrightarrow> c \<notin> set (visited st)
                  \<Longrightarrow> astar_select g hr tn s t c (st\<lparr>pq := pq1, inOpenSet := set_delete c (inOpenSet st)\<rparr>) = (st2, None)
                  \<Longrightarrow> c \<noteq> t \<Longrightarrow> astar_visit h g hr tn s t c st2 = (st3, Some e)
                  \<Longrightarrow> Q (Some (out st3, Some e))"
    and visit: "\<And>st c pq1 st2 st3. I st \<Longrightarrow> \<not> isEmpty (pq st) \<Longrightarrow> dequeue (pq st) = (Some c, pq1)
                  \<Longrightarrow> c \<notin> set (visited st)
                  \<Longrightarrow> astar_select g hr tn s t c (st\<lparr>pq := pq1, inOpenSet := set_delete c (inOpenSet st)\<rparr>) = (st2, None)
                  \<Longrightarrow> c \<noteq> t \<Longrightarrow> astar_visit h g hr tn s t c st2 = (st3, None)
                  \<Longrightarrow> I st3"
  shows "Q (astar_loop h g hr tn s t st0)"
  using assms
proof (induction h g hr tn s t st0 rule: astar_loop.induct)
  case (1 h g hr tn s t st)
  note I = "1.prems"(1) and stale = "1.prems"(2) and finish = "1.prems"(3)
    and select_err = "1.prems"(4) and target = "1.prems"(5) and visit_err = "1.prems"(6)
    and visit = "1.prems"(7)
  show ?case
  proof (cases "isEmpty (pq st)")
    case True
    then show ?thesis using finish[OF I] by (subst astar_loop.simps) simp
  next
    case False
    obtain d pq1 where dq: "dequeue (pq st) = (d, pq1)" by (cases "dequeue (pq st)")
    with dequeue_None[OF False] obtain c where d: "d = Some c" by (cases d) auto
    note dq = dq[unfolded d]
    define st1 where "st1 = st\<lparr>pq := pq1, inOpenSet := set_delete c (inOpenSet st)\<rparr>"
    show ?thesis
    proof (cases "c \<in> set (visited st)")
      case True
      have "Q (astar_loop h g hr tn s t st1)"
      proof (rule "1.IH"(1)[OF False dq[symmetric] refl st1_def])
        show "set_has (visited st1) c" using True by (simp add: set_has_def st1_def)
        show "I st1" unfolding st1_def by (rule stale[OF I False dq True])
      qed (fact stale finish select_err target visit_err visit)+
      moreover have "astar_loop h g hr tn s t st = astar_loop h g hr tn s t st1"
        using True by (subst astar_loop.simps) (simp add: False dq set_has_def Let_def st1_def)
      ultimately show ?thesis by simp
    next
      case nv: False
      obtain st2 r2 where sel: "astar_select g hr tn s t c st1 = (st2, r2)"
        by (cases "astar_select g hr tn s t c st1")
      have unf: "astar_loop h g hr tn s t st =
        (case (st2, r2) of
          (st2, Some e) \<Rightarrow> Some (out st2, Some e)
        | (st2, None) \<Rightarrow>
            if c = t then map_option (\<lambda>s. (out s, None)) (astar_target g s t st2)
            else (case astar_visit h g hr tn s t c st2 of
                    (st3, Some e) \<Rightarrow> Some (out st3, Some e)
                  | (st3, None) \<Rightarrow> astar_loop h g hr tn s t st3))"
        using nv by (subst astar_loop.simps) (simp add: False dq set_has_def Let_def st1_def[symmetric] sel)
      show ?thesis
      proof (cases r2)
        case (Some e)
        then show ?thesis using select_err[OF I False dq nv sel[unfolded st1_def Some]] unf by simp
      next
        case None
        note sel' = sel[unfolded st1_def None]
        show ?thesis
        proof (cases "c = t")
          case True
          then show ?thesis using target[OF I False dq nv sel' True] unf None by simp
        next
          case ct: False
          obtain st3 r3 where vis: "astar_visit h g hr tn s t c st2 = (st3, r3)"
            by (cases "astar_visit h g hr tn s t c st2")
          show ?thesis
          proof (cases r3)
            case (Some e)
            then show ?thesis using visit_err[OF I False dq nv sel' ct vis[unfolded Some]] unf None ct vis by simp
          next
            case n3: None
            have "Q (astar_loop h g hr tn s t st3)"
            proof (rule "1.IH"(2)[OF False dq[symmetric] refl st1_def _ sel[symmetric] None ct vis[symmetric] n3])
              show "\<not> set_has (visited st1) c" using nv by (simp add: set_has_def st1_def)
              show "I st3" by (rule visit[OF I False dq nv sel' ct vis[unfolded n3]])
            qed (fact stale finish select_err target visit_err visit)+
            then show ?thesis using unf None ct vis n3 by simp
          qed
        qed
      qed
    qed
  qed
qed

section \<open>What a step records\<close>

lemma mk_step_simps [simp]:
  "distances (mk_step ty cur st q line b a) = distances st"
  "predecessors (mk_step ty cur st q line b a) = predecessors st"
  "visited (mk_step ty cur st q line b a) = visited st"
  "nodeStates (mk_step ty cur st q line b a) = nodeStates st"
  "edgeStates (mk_step ty cur st q line b a) = edgeStates st"
  "stype (mk_step ty cur st q line b a) = ty"
  "currentNode (mk_step ty cur st q line b a) = cur"
  "queue (mk_step ty cur st q line b a) = q"
  "shortestPath (mk_step ty cur st q line b a) = None"
  "totalDistance (mk_step ty cur st q line b a) = None"
  "currentEdge (mk_step ty cur st q line b a) = None"
  by (simp_all add: mk_step_def)

lemma init_step_simps [simp]:
  "distances (init_step s st) = distances st" "predecessors (init_step s st) = predecessors st"
  "visited (init_step s st) = visited st" "queue (init_step s st) = pq st"
  "stype (init_step s st) = Init" "currentNode (init_step s st) = None"
  "shortestPath (init_step s st) = None" "totalDistance (init_step s st) = None"
  by (simp_all add: init_step_def)

lemma select_step_simps [simp]:
  "distances (select_step c st) = distances st" "predecessors (select_step c st) = predecessors st"
  "visited (select_step c st) = visited st" "queue (select_step c st) = pq st"
  "stype (select_step c st) = SelectNode" "currentNode (select_step c st) = Some c"
  "shortestPath (select_step c st) = None" "totalDistance (select_step c st) = None"
  by (simp_all add: select_step_def)

lemma path_found_step_simps [simp]:
  "distances (path_found_step c t p st) = distances st" "predecessors (path_found_step c t p st) = predecessors st"
  "visited (path_found_step c t p st) = visited st" "queue (path_found_step c t p st) = pq st"
  "stype (path_found_step c t p st) = PathFound" "currentNode (path_found_step c t p st) = Some c"
  "shortestPath (path_found_step c t p st) = Some p"
  "totalDistance (path_found_step c t p st) = Some (num_get (distances st) t)"
  by (simp_all add: path_found_step_def)

lemma mark_visited_step_simps [simp]:
  "distances (mark_visited_step c st) = distances st" "predecessors (mark_visited_step c st) = predecessors st"
  "visited (mark_visited_step c st) = visited st" "queue (mark_visited_step c st) = pq st"
  "stype (mark_visited_step c st) = MarkVisited" "currentNode (mark_visited_step c st) = Some c"
  "shortestPath (mark_visited_step c st) = None" "totalDistance (mark_visited_step c st) = None"
  by (simp_all add: mark_visited_step_def)

lemma examine_step_simps [simp]:
  "distances (examine_step c n e w cd od nd st) = distances st"
  "predecessors (examine_step c n e w cd od nd st) = predecessors st"
  "visited (examine_step c n e w cd od nd st) = visited st" "queue (examine_step c n e w cd od nd st) = pq st"
  "stype (examine_step c n e w cd od nd st) = ExamineEdge" "currentNode (examine_step c n e w cd od nd st) = Some c"
  "shortestPath (examine_step c n e w cd od nd st) = None" "totalDistance (examine_step c n e w cd od nd st) = None"
  "currentEdge (examine_step c n e w cd od nd st) = Some (mk_edge e c n w od nd (js_lt nd od))"
  by (simp_all add: examine_step_def)

lemma relax_step_simps [simp]:
  "distances (relax_step c n e w od nd st) = distances st"
  "predecessors (relax_step c n e w od nd st) = predecessors st"
  "visited (relax_step c n e w od nd st) = visited st" "queue (relax_step c n e w od nd st) = pq st"
  "stype (relax_step c n e w od nd st) = RelaxEdge" "currentNode (relax_step c n e w od nd st) = Some c"
  "shortestPath (relax_step c n e w od nd st) = None" "totalDistance (relax_step c n e w od nd st) = None"
  "currentEdge (relax_step c n e w od nd st) = Some (mk_edge e c n w od nd True)"
  by (simp_all add: relax_step_def)

lemma skip_step_simps [simp]:
  "distances (skip_step c n e w od nd st) = distances st"
  "predecessors (skip_step c n e w od nd st) = predecessors st"
  "visited (skip_step c n e w od nd st) = visited st" "queue (skip_step c n e w od nd st) = pq st"
  "stype (skip_step c n e w od nd st) = SkipEdge" "currentNode (skip_step c n e w od nd st) = Some c"
  "shortestPath (skip_step c n e w od nd st) = None" "totalDistance (skip_step c n e w od nd st) = None"
  "currentEdge (skip_step c n e w od nd st) = Some (mk_edge e c n w od nd False)"
  by (simp_all add: skip_step_def)

lemma no_path_step_simps [simp]:
  "distances (no_path_step s t st) = distances st" "predecessors (no_path_step s t st) = predecessors st"
  "visited (no_path_step s t st) = visited st" "queue (no_path_step s t st) = []"
  "stype (no_path_step s t st) = NoPath" "currentNode (no_path_step s t st) = None"
  "shortestPath (no_path_step s t st) = None" "totalDistance (no_path_step s t st) = None"
  by (simp_all add: no_path_step_def)

lemma complete_step_simps [simp]:
  "distances (complete_step s st) = distances st" "predecessors (complete_step s st) = predecessors st"
  "visited (complete_step s st) = visited st" "queue (complete_step s st) = []"
  "stype (complete_step s st) = Complete" "currentNode (complete_step s st) = None"
  "shortestPath (complete_step s st) = None" "totalDistance (complete_step s st) = None"
  by (simp_all add: complete_step_def)

lemma astar_init_step_simps [simp]:
  "distances (astar_init_step s t hv st) = distances st" "predecessors (astar_init_step s t hv st) = predecessors st"
  "visited (astar_init_step s t hv st) = visited st" "queue (astar_init_step s t hv st) = pq st"
  "stype (astar_init_step s t hv st) = Init" "currentNode (astar_init_step s t hv st) = None"
  "shortestPath (astar_init_step s t hv st) = None" "totalDistance (astar_init_step s t hv st) = None"
  by (simp_all add: astar_init_step_def)

lemma astar_select_step_simps [simp]:
  "distances (astar_select_step c cf cg ch st) = distances st"
  "predecessors (astar_select_step c cf cg ch st) = predecessors st"
  "visited (astar_select_step c cf cg ch st) = visited st" "queue (astar_select_step c cf cg ch st) = pq st"
  "stype (astar_select_step c cf cg ch st) = SelectNode" "currentNode (astar_select_step c cf cg ch st) = Some c"
  "shortestPath (astar_select_step c cf cg ch st) = None" "totalDistance (astar_select_step c cf cg ch st) = None"
  by (simp_all add: astar_select_step_def)

lemma astar_path_found_step_simps [simp]:
  "distances (astar_path_found_step c t p st) = distances st"
  "predecessors (astar_path_found_step c t p st) = predecessors st"
  "visited (astar_path_found_step c t p st) = visited st" "queue (astar_path_found_step c t p st) = pq st"
  "stype (astar_path_found_step c t p st) = PathFound" "currentNode (astar_path_found_step c t p st) = Some c"
  "shortestPath (astar_path_found_step c t p st) = Some p"
  "totalDistance (astar_path_found_step c t p st) = Some (num_get (distances st) t)"
  by (simp_all add: astar_path_found_step_def)

lemma astar_examine_step_simps [simp]:
  "distances (astar_examine_step c n e w od nd st) = distances st"
  "predecessors (astar_examine_step c n e w od nd st) = predecessors st"
  "visited (astar_examine_step c n e w od nd st) = visited st" "queue (astar_examine_step c n e w od nd st) = pq st"
  "stype (astar_examine_step c n e w od nd st) = ExamineEdge" "currentNode (astar_examine_step c n e w od nd st) = Some c"
  "shortestPath (astar_examine_step c n e w od nd st) = None" "totalDistance (astar_examine_step c n e w od nd st) = None"
  "currentEdge (astar_examine_step c n e w od nd st) = Some (mk_edge e c n w od nd (js_lt nd od))"
  by (simp_all add: astar_examine_step_def)

lemma astar_relax_step_simps [simp]:
  "distances (astar_relax_step c n e w od nd hv f st) = distances st"
  "predecessors (astar_relax_step c n e w od nd hv f st) = predecessors st"
  "visited (astar_relax_step c n e w od nd hv f st) = visited st" "queue (astar_relax_step c n e w od nd hv f st) = pq st"
  "stype (astar_relax_step c n e w od nd hv f st) = RelaxEdge" "currentNode (astar_relax_step c n e w od nd hv f st) = Some c"
  "shortestPath (astar_relax_step c n e w od nd hv f st) = None" "totalDistance (astar_relax_step c n e w od nd hv f st) = None"
  "currentEdge (astar_relax_step c n e w od nd hv f st) = Some (mk_edge e c n w od nd True)"
  by (simp_all add: astar_relax_step_def)

lemma astar_skip_step_simps [simp]:
  "distances (astar_skip_step c n e w od nd st) = distances st"
  "predecessors (astar_skip_step c n e w od nd st) = predecessors st"
  "visited (astar_skip_step c n e w od nd st) = visited st" "queue (astar_skip_step c n e w od nd st) = pq st"
  "stype (astar_skip_step c n e w od nd st) = SkipEdge" "currentNode (astar_skip_step c n e w od nd st) = Some c"
  "shortestPath (astar_skip_step c n e w od nd st) = None" "totalDistance (astar_skip_step c n e w od nd st) = None"
  "currentEdge (astar_skip_step c n e w od nd st) = Some (mk_edge e c n w od nd False)"
  by (simp_all add: astar_skip_step_def)

lemma astar_no_path_step_simps [simp]:
  "distances (astar_no_path_step s t st) = distances st" "predecessors (astar_no_path_step s t st) = predecessors st"
  "visited (astar_no_path_step s t st) = visited st" "queue (astar_no_path_step s t st) = []"
  "stype (astar_no_path_step s t st) = NoPath" "currentNode (astar_no_path_step s t st) = None"
  "shortestPath (astar_no_path_step s t st) = None" "totalDistance (astar_no_path_step s t st) = None"
  by (simp_all add: astar_no_path_step_def)

text \<open>A step of kind \<open>ty\<close> about node \<open>cur\<close> that copies the state \<open>st\<close>.\<close>

definition step_of :: "step \<Rightarrow> step_type \<Rightarrow> string option \<Rightarrow> 'a dstate_scheme \<Rightarrow> bool" where
  "step_of s ty cur st =
     (stype s = ty \<and> currentNode s = cur \<and> distances s = distances st \<and>
      predecessors s = predecessors st \<and> visited s = visited st)"

lemma step_of_cong:
  "distances st = distances st' \<Longrightarrow> predecessors st = predecessors st' \<Longrightarrow> visited st = visited st'
   \<Longrightarrow> step_of s ty cur st = step_of s ty cur st'"
  by (simp add: step_of_def)

lemma emit_astate_simps [simp]:
  "fScore (emit s st) = fScore st" "inOpenSet (emit s st) = inOpenSet st"
  by (simp_all add: emit_def)

subsection \<open>The effect of one round over a neighbor (single-source engine)\<close>

lemma dijkstra_neighbor_visited:
  "n \<in> set (visited st) \<Longrightarrow> dijkstra_neighbor t c (n, e, w) st = st"
  by (simp add: dijkstra_neighbor_def set_has_def)

lemma dijkstra_neighbor_relax:
  assumes "n \<notin> set (visited st)"
    and "js_lt (js_add (num_get (distances st) c) (Num w)) (num_get (distances st) n)"
    and st': "st' = dijkstra_neighbor t c (n, e, w) st"
  shows "distances st' = AList.update n (js_add (num_get (distances st) c) (Num w)) (distances st)"
    and "predecessors st' = AList.update n (Some c) (predecessors st)"
    and "visited st' = visited st"
    and "pq st' = enqueue (pq st) n (js_add (num_get (distances st) c) (Num w))"
    and "\<exists>ex rx. out st' = out st @ [ex, rx] \<and> step_of ex ExamineEdge (Some c) st \<and> queue ex = pq st \<and>
           step_of rx RelaxEdge (Some c) st' \<and> queue rx = pq st' \<and>
           currentEdge rx = Some (mk_edge e c n w (num_get (distances st) n)
                                     (js_add (num_get (distances st) c) (Num w)) True)"
  using assms(1,2) unfolding st'
  by (simp_all add: dijkstra_neighbor_def set_has_def Let_def step_of_def)

lemma dijkstra_neighbor_skip:
  assumes "n \<notin> set (visited st)"
    and "\<not> js_lt (js_add (num_get (distances st) c) (Num w)) (num_get (distances st) n)"
    and st': "st' = dijkstra_neighbor t c (n, e, w) st"
  shows "distances st' = distances st" and "predecessors st' = predecessors st"
    and "visited st' = visited st" and "pq st' = pq st"
    and "\<exists>ex sk. out st' = out st @ [ex, sk] \<and> step_of ex ExamineEdge (Some c) st \<and> queue ex = pq st \<and>
           step_of sk SkipEdge (Some c) st \<and> queue sk = pq st"
  using assms(1,2) unfolding st'
  by (simp_all add: dijkstra_neighbor_def set_has_def Let_def step_of_def)

subsection \<open>The effect of one round over a neighbor (heuristic engine)\<close>

lemma astar_neighbor_visited:
  "n \<in> set (visited st) \<Longrightarrow> astar_neighbor g hr tn t c (n, e, w) st = (st, None)"
  by (simp add: astar_neighbor_def set_has_def)

lemma astar_neighbor_relax:
  assumes "n \<notin> set (visited st)"
    and "js_lt (js_add (num_get (distances st) c) (Num w)) (num_get (distances st) n)"
    and "astar_neighbor g hr tn t c (n, e, w) st = (st', None)"
  shows "distances st' = AList.update n (js_add (num_get (distances st) c) (Num w)) (distances st)"
    and "predecessors st' = AList.update n (Some c) (predecessors st)"
    and "visited st' = visited st"
    and "\<exists>hv. hr (map_of (nodes g) n) (Some tn) = Inr hv \<and>
           pq st' = (if set_has (inOpenSet st) n then pq st
                     else enqueue (pq st) n (js_add (js_add (num_get (distances st) c) (Num w)) hv))"
    and "\<exists>ex rx. out st' = out st @ [ex, rx] \<and> step_of ex ExamineEdge (Some c) st \<and> queue ex = pq st \<and>
           step_of rx RelaxEdge (Some c) st' \<and> queue rx = pq st' \<and>
           currentEdge rx = Some (mk_edge e c n w (num_get (distances st) n)
                                     (js_add (num_get (distances st) c) (Num w)) True)"
  using assms
  by (auto simp add: astar_neighbor_def set_has_def Let_def step_of_def split: if_splits sum.splits)

lemma astar_neighbor_skip:
  assumes "n \<notin> set (visited st)"
    and "\<not> js_lt (js_add (num_get (distances st) c) (Num w)) (num_get (distances st) n)"
    and "astar_neighbor g hr tn t c (n, e, w) st = (st', None)"
  shows "distances st' = distances st" and "predecessors st' = predecessors st"
    and "visited st' = visited st" and "pq st' = pq st"
    and "\<exists>ex sk. out st' = out st @ [ex, sk] \<and> step_of ex ExamineEdge (Some c) st \<and> queue ex = pq st \<and>
           step_of sk SkipEdge (Some c) st \<and> queue sk = pq st"
  using assms
  by (auto simp add: astar_neighbor_def set_has_def Let_def step_of_def split: if_splits sum.splits)

text \<open>When a round throws, nothing or only the \<open>examine-edge\<close> step has been yielded.\<close>

lemma astar_neighbor_error:
  assumes "astar_neighbor g hr tn t c (n, e, w) st = (st', Some err)"
  shows "out st' = out st \<or> (\<exists>ex. out st' = out st @ [ex] \<and> step_of ex ExamineEdge (Some c) st \<and> queue ex = pq st)"
  using assms
  by (auto simp add: astar_neighbor_def set_has_def Let_def step_of_def split: if_splits sum.splits)

section \<open>Predecessor links follow the order of visits\<close>

text \<open>The position of \<open>v\<close> in the list of visited nodes, its length for a node that is
  not visited yet.\<close>

definition rank :: "string list \<Rightarrow> string \<Rightarrow> nat" where
  "rank xs v = length (takeWhile (\<lambda>x. x \<noteq> v) xs)"

lemma rank_le: "rank xs v \<le> length xs"
  by (simp add: rank_def length_takeWhile_le)

lemma rank_notin: "v \<notin> set xs \<Longrightarrow> rank xs v = length xs"
  unfolding rank_def by (induction xs) auto

lemma rank_in: "v \<in> set xs \<Longrightarrow> rank xs v < length xs"
  unfolding rank_def by (induction xs) auto

lemma rank_less_in: "rank xs c < rank xs v \<Longrightarrow> c \<in> set xs"
  using rank_le[of xs v] rank_notin[of c xs] by force

lemma rank_append_in: "v \<in> set xs \<Longrightarrow> rank (xs @ ys) v = rank xs v"
  by (simp add: rank_def takeWhile_append1)

lemma rank_append_ge: "rank xs v \<le> rank (xs @ ys) v"
  unfolding rank_def by (induction xs) auto

lemma rank_set_add:
  assumes "rank xs c < rank xs v"
  shows "rank (set_add u xs) c < rank (set_add u xs) v"
proof (cases "u \<in> set xs")
  case True
  then show ?thesis using assms by (simp add: set_add_def)
next
  case False
  have "rank (xs @ [u]) c = rank xs c" using rank_less_in[OF assms] by (rule rank_append_in)
  moreover have "rank xs v \<le> rank (xs @ [u]) v" by (rule rank_append_ge)
  ultimately show ?thesis using assms False by (simp add: set_add_def)
qed

definition pred_ok :: "'a vars_scheme \<Rightarrow> bool" where
  "pred_ok st = (\<forall>v c. map_of (predecessors st) v = Some (Some c)
                   \<longrightarrow> rank (visited st) c < rank (visited st) v)"

lemma pred_ok_visit:
  "pred_ok st \<Longrightarrow> predecessors st' = predecessors st \<Longrightarrow> visited st' = set_add c (visited st)
   \<Longrightarrow> pred_ok st'"
  by (simp add: pred_ok_def rank_set_add)

lemma pred_ok_relax:
  assumes "pred_ok st" "c \<in> set (visited st)" "n \<notin> set (visited st)"
    and "predecessors st' = AList.update n (Some c) (predecessors st)" "visited st' = visited st"
  shows "pred_ok st'"
  using assms rank_in[OF assms(2)] rank_notin[OF assms(3)]
  by (auto simp: pred_ok_def update_conv')

subsection \<open>Path reconstruction returns\<close>

text \<open>A list of nodes in which each node is the recorded predecessor of the next, and a
  node without a recorded predecessor.\<close>

fun follows :: "(string \<times> string option) list \<Rightarrow> string list \<Rightarrow> bool" where
  "follows preds (a # b # rest) = (map_of preds b = Some (Some a) \<and> follows preds (b # rest))"
| "follows preds p = True"

definition root :: "(string \<times> string option) list \<Rightarrow> string \<Rightarrow> bool" where
  "root preds r = (\<forall>c. map_of preds r \<noteq> Some (Some c))"

lemma follows_snoc:
  "p \<noteq> [] \<Longrightarrow> follows preds (p @ [v]) = (follows preds p \<and> map_of preds v = Some (Some (last p)))"
  by (induction preds p rule: follows.induct) auto

lemma reconstructPath_loop_total:
  fixes f :: "string \<Rightarrow> nat"
  assumes "\<forall>v c. map_of preds v = Some (Some c) \<longrightarrow> f c < f v"
  shows "\<exists>p. reconstructPath_loop preds acc (Some v) = Some (p @ acc) \<and> p \<noteq> [] \<and> last p = v \<and>
             root preds (hd p) \<and> follows preds p"
proof (induction v arbitrary: acc rule: measure_induct_rule[of f])
  case (less v)
  show ?case
  proof (cases "\<exists>c. map_of preds v = Some (Some c)")
    case True
    then obtain c where c: "map_of preds v = Some (Some c)" by blast
    then have "f c < f v" using assms by blast
    from less.IH[OF this, of "v # acc"] obtain p where
      p: "reconstructPath_loop preds (v # acc) (Some c) = Some (p @ v # acc)" "p \<noteq> []" "last p = c"
         "root preds (hd p)" "follows preds p" by blast
    have "reconstructPath_loop preds acc (Some v) = Some ((p @ [v]) @ acc)"
      using p(1) c by (subst reconstructPath_loop.simps) simp
    moreover have "follows preds (p @ [v])" using p c by (simp add: follows_snoc)
    ultimately show ?thesis using p(2,4) by (intro exI[of _ "p @ [v]"]) simp
  next
    case False
    then have "(case map_of preds v of Some (Some p) \<Rightarrow> Some p | _ \<Rightarrow> None) = None"
      by (auto split: option.splits)
    then have "reconstructPath_loop preds acc (Some v) = Some ([v] @ acc)"
      by (subst reconstructPath_loop.simps, simp, subst reconstructPath_loop.simps, simp)
    then show ?thesis using False by (intro exI[of _ "[v]"]) (simp add: root_def)
  qed
qed

lemma reconstructPath_total:
  assumes "pred_ok st"
  shows "\<exists>p. reconstructPath (predecessors st) v = Some p \<and> p \<noteq> [] \<and> last p = v \<and>
             root (predecessors st) (hd p) \<and> follows (predecessors st) p"
  using reconstructPath_loop_total[of "predecessors st" "rank (visited st)" "[]" v] assms
  by (simp add: reconstructPath_def pred_ok_def)

section \<open>The shape of a run\<close>

lemma mark_path_simps [simp]:
  "distances (mark_path g s p st) = distances st"
  "predecessors (mark_path g s p st) = predecessors st"
  "visited (mark_path g s p st) = visited st"
  by (induction g s p st rule: mark_path.induct; simp add: Let_def split: option.split)+

lemma mark_path_dstate [simp]:
  fixes st :: "'a dstate_scheme"
  shows "pq (mark_path g s p st) = pq st" "out (mark_path g s p st) = out st"
  by (induction g s p st rule: mark_path.induct; simp add: Let_def split: option.split)+

lemma dijkstra_select_out:
  "\<exists>sel. out (dijkstra_select s t c st) = out st @ [sel] \<and> step_of sel SelectNode (Some c) st \<and> queue sel = pq st"
  by (simp add: dijkstra_select_def Let_def step_of_def)

lemma dijkstra_target_effect:
  assumes "pred_ok st"
  shows "\<exists>p st' pf. dijkstra_target g s t st = Some st' \<and> out st' = out st @ [pf] \<and>
           reconstructPath (predecessors st) t = Some p \<and> p \<noteq> [] \<and> last p = t \<and>
           root (predecessors st) (hd p) \<and> follows (predecessors st) p \<and>
           stype pf = PathFound \<and> currentNode pf = Some t \<and> shortestPath pf = Some p \<and>
           totalDistance pf = Some (num_get (distances st) t) \<and> distances pf = distances st \<and>
           predecessors pf = predecessors st \<and> visited pf = set_add t (visited st)"
proof -
  from reconstructPath_total[OF assms, of t] obtain p where
    p: "reconstructPath (predecessors st) t = Some p" "p \<noteq> []" "last p = t"
       "root (predecessors st) (hd p)" "follows (predecessors st) p" by blast
  show ?thesis using p by (simp add: dijkstra_target_def Let_def)
qed

definition terminal :: "step_type \<Rightarrow> bool" where
  "terminal ty = (ty = PathFound \<or> ty = NoPath \<or> ty = Complete)"

text \<open>The step that selects the target, when a target is given (\<open>if (targetId)\<close>).\<close>

definition selects_target :: "string option \<Rightarrow> step \<Rightarrow> bool" where
  "selects_target t s = (truthy t \<and> stype s = SelectNode \<and> currentNode s = t)"

definition plain :: "string option \<Rightarrow> step \<Rightarrow> bool" where
  "plain t s = (\<not> terminal (stype s) \<and> \<not> selects_target t s)"

lemma step_of_plain:
  "step_of s ty cur st \<Longrightarrow> \<not> terminal ty \<Longrightarrow> ty = SelectNode \<longrightarrow> \<not> (truthy t \<and> cur = t) \<Longrightarrow> plain t s"
  by (auto simp: step_of_def plain_def selects_target_def)

text \<open>What holds of the state of the single-source engine between two rounds of its main
  loop: \<open>base\<close> are steps already yielded.\<close>

definition dijkstra_shape_inv :: "step list \<Rightarrow> string option \<Rightarrow> dstate \<Rightarrow> bool" where
  "dijkstra_shape_inv base t st =
     (pred_ok st \<and> (\<exists>rest. out st = base @ rest) \<and> (\<forall>s\<in>set (out st). plain t s) \<and>
      (\<forall>tv. t = Some tv \<and> tv \<noteq> [] \<longrightarrow> tv \<notin> set (visited st)))"

definition neighbor_shape_inv :: "step list \<Rightarrow> string option \<Rightarrow> string \<Rightarrow> 'a dstate_scheme \<Rightarrow> bool" where
  "neighbor_shape_inv base t c st =
     (pred_ok st \<and> (\<exists>rest. out st = base @ rest) \<and> (\<forall>s\<in>set (out st). plain t s) \<and>
      (\<forall>tv. t = Some tv \<and> tv \<noteq> [] \<longrightarrow> tv \<notin> set (visited st)) \<and> c \<in> set (visited st))"

lemma dijkstra_neighbor_shape:
  assumes "neighbor_shape_inv base t c st"
  shows "neighbor_shape_inv base t c (dijkstra_neighbor t c nb st)"
proof -
  obtain n e w where nb: "nb = (n, e, w)" by (cases nb)
  let ?st' = "dijkstra_neighbor t c (n, e, w) st"
  note I = assms[unfolded neighbor_shape_inv_def]
  consider (vis) "n \<in> set (visited st)"
    | (relax) "n \<notin> set (visited st)" "js_lt (js_add (num_get (distances st) c) (Num w)) (num_get (distances st) n)"
    | (skip) "n \<notin> set (visited st)" "\<not> js_lt (js_add (num_get (distances st) c) (Num w)) (num_get (distances st) n)"
    by blast
  then show ?thesis
  proof cases
    case vis
    then show ?thesis using assms by (simp add: nb dijkstra_neighbor_visited)
  next
    case relax
    note r = dijkstra_neighbor_relax[OF relax refl, of t e]
    from r(5) obtain ex rx where o: "out ?st' = out st @ [ex, rx]"
      "step_of ex ExamineEdge (Some c) st" "step_of rx RelaxEdge (Some c) ?st'" by (elim exE conjE)
    have 1: "pred_ok ?st'" using pred_ok_relax[OF _ _ relax(1) r(2) r(3)] I by blast
    have 2: "plain t ex" "plain t rx"
      using step_of_plain[OF o(2), of t] step_of_plain[OF o(3), of t] by (simp_all add: terminal_def)
    from I obtain rest where "out st = base @ rest" by blast
    then have 3: "\<exists>rest'. out ?st' = base @ rest'" by (simp add: o(1))
    have 4: "\<forall>s\<in>set (out ?st'). plain t s" using I 2 by (simp add: o(1))
    have 5: "(\<forall>tv. t = Some tv \<and> tv \<noteq> [] \<longrightarrow> tv \<notin> set (visited ?st')) \<and> c \<in> set (visited ?st')"
      unfolding r(3) using I by blast
    show ?thesis unfolding neighbor_shape_inv_def nb
      by (intro conjI 1 3 4 conjunct1[OF 5] conjunct2[OF 5])
  next
    case skip
    note r = dijkstra_neighbor_skip[OF skip refl, of t e]
    from r(5) obtain ex sk where o: "out ?st' = out st @ [ex, sk]"
      "step_of ex ExamineEdge (Some c) st" "step_of sk SkipEdge (Some c) st" by (elim exE conjE)
    have 1: "pred_ok ?st'" using I r(2,3) by (simp add: pred_ok_def)
    have 2: "plain t ex" "plain t sk"
      using step_of_plain[OF o(2), of t] step_of_plain[OF o(3), of t] by (simp_all add: terminal_def)
    from I obtain rest where "out st = base @ rest" by blast
    then have 3: "\<exists>rest'. out ?st' = base @ rest'" by (simp add: o(1))
    have 4: "\<forall>s\<in>set (out ?st'). plain t s" using I 2 by (simp add: o(1))
    have 5: "(\<forall>tv. t = Some tv \<and> tv \<noteq> [] \<longrightarrow> tv \<notin> set (visited ?st')) \<and> c \<in> set (visited ?st')"
      unfolding r(3) using I by blast
    show ?thesis unfolding neighbor_shape_inv_def nb
      by (intro conjI 1 3 4 conjunct1[OF 5] conjunct2[OF 5])
  qed
qed

lemma dijkstra_neighbors_shape:
  "neighbor_shape_inv base t c st \<Longrightarrow> neighbor_shape_inv base t c (fold (dijkstra_neighbor t c) nbs st)"
  by (induction nbs arbitrary: st) (simp_all add: dijkstra_neighbor_shape)

lemma dijkstra_visit_shape:
  assumes "dijkstra_shape_inv base t st" "\<not> (truthy t \<and> Some c = t)"
  shows "dijkstra_shape_inv base t (dijkstra_visit h g s t c (dijkstra_select s t c (st\<lparr>pq := pq1\<rparr>)))"
proof -
  define st1 where "st1 = dijkstra_select s t c (st\<lparr>pq := pq1\<rparr>)"
  define st2 where "st2 = (if c \<noteq> s \<and> Some c \<noteq> t
       then st1\<lparr>visited := set_add c (visited st1), nodeStates := AList.update c NVisited (nodeStates st1)\<rparr>
       else st1\<lparr>visited := set_add c (visited st1)\<rparr>)"
  define st3 where "st3 = emit (mark_visited_step c st2) st2"
  define st4 where "st4 = fold (dijkstra_neighbor t c) (getNeighbors h g c) st3"
  have v: "dijkstra_visit h g s t c st1 = st4\<lparr>edgeStates := reset_relaxed (edgeStates st4)\<rparr>"
    unfolding dijkstra_visit_unfold st2_def st3_def st4_def Let_def ..
  note I = assms(1)[unfolded dijkstra_shape_inv_def]
  obtain sel where sel: "out st1 = out st @ [sel]" "step_of sel SelectNode (Some c) (st\<lparr>pq := pq1\<rparr>)"
    using dijkstra_select_out[of s t c "st\<lparr>pq := pq1\<rparr>"] by (auto simp: st1_def)
  have psel: "plain t sel" using step_of_plain[OF sel(2), of t] assms(2) by (auto simp: terminal_def)
  have s2: "visited st2 = set_add c (visited st)" "predecessors st2 = predecessors st" "out st2 = out st1"
    by (simp_all add: st2_def st1_def)
  have s3: "visited st3 = set_add c (visited st)" "predecessors st3 = predecessors st"
    "out st3 = out st @ [sel, mark_visited_step c st2]"
    by (simp_all add: st3_def s2 sel)
  have "plain t (mark_visited_step c st2)" by (simp add: plain_def terminal_def selects_target_def)
  moreover have "pred_ok st3" using pred_ok_visit[OF _ s3(2) s3(1)] I by blast
  moreover have "\<forall>tv. t = Some tv \<and> tv \<noteq> [] \<longrightarrow> tv \<notin> set (visited st3)"
    using I assms(2) by (auto simp: s3 set_add_def truthy_def)
  ultimately have "neighbor_shape_inv base t c st3"
    using I psel by (auto simp: neighbor_shape_inv_def s3 set_add_def)
  then have "neighbor_shape_inv base t c st4" unfolding st4_def by (rule dijkstra_neighbors_shape)
  then show ?thesis unfolding st1_def[symmetric] v
    by (simp add: neighbor_shape_inv_def dijkstra_shape_inv_def pred_ok_def)
qed

text \<open>The shape of a finished run: plain steps, then either the single final step
  (\<open>no-path\<close> with a target, \<open>complete\<close> without) or the selection of the target and
  \<open>path-found\<close>.\<close>

definition run_shape :: "string option \<Rightarrow> step list \<Rightarrow> bool" where
  "run_shape t steps =
     (\<exists>pre. (\<forall>s\<in>set pre. plain t s) \<and>
        ((\<exists>fin. steps = pre @ [fin] \<and> stype fin = (if truthy t then NoPath else Complete)) \<or>
         (\<exists>sel pf. steps = pre @ [sel, pf] \<and> selects_target t sel \<and> stype pf = PathFound)))"

lemma dijkstra_loop_shape:
  assumes "dijkstra_shape_inv base t st0"
  shows "\<exists>steps rest. dijkstra_loop h g s t st0 = Some steps \<and> steps = base @ rest \<and> run_shape t steps"
proof (rule dijkstra_loop_rule[where I = "dijkstra_shape_inv base t"
        and Q = "\<lambda>r. \<exists>steps rest. r = Some steps \<and> steps = base @ rest \<and> run_shape t steps"])
  show "dijkstra_shape_inv base t st0" by fact
next
  fix st c pq1
  assume "dijkstra_shape_inv base t st"
  then show "dijkstra_shape_inv base t (st\<lparr>pq := pq1\<rparr>)"
    by (simp add: dijkstra_shape_inv_def pred_ok_def)
next
  fix st c pq1
  assume "dijkstra_shape_inv base t st" "\<not> (truthy t \<and> Some c = t)"
  then show "dijkstra_shape_inv base t (dijkstra_visit h g s t c (dijkstra_select s t c (st\<lparr>pq := pq1\<rparr>)))"
    by (rule dijkstra_visit_shape)
next
  fix st
  assume I: "dijkstra_shape_inv base t st"
  note I' = I[unfolded dijkstra_shape_inv_def]
  have "\<exists>fin. out (dijkstra_finish s t st) = out st @ [fin] \<and> stype fin = (if truthy t then NoPath else Complete)"
    using I' by (auto simp: dijkstra_finish_def truthy_def set_has_def split: option.split)
  then obtain fin where f: "out (dijkstra_finish s t st) = out st @ [fin]"
    "stype fin = (if truthy t then NoPath else Complete)" by blast
  have "run_shape t (out st @ [fin])" unfolding run_shape_def using I' f(2) by blast
  then show "\<exists>steps rest. Some (out (dijkstra_finish s t st)) = Some steps \<and> steps = base @ rest \<and> run_shape t steps"
    using I' f(1) by auto
next
  fix st c pq1
  assume I: "dijkstra_shape_inv base t st" and tt: "truthy t" "Some c = t"
  note I' = I[unfolded dijkstra_shape_inv_def]
  define st1 where "st1 = dijkstra_select s t c (st\<lparr>pq := pq1\<rparr>)"
  obtain sel where sel: "out st1 = out st @ [sel]" "step_of sel SelectNode (Some c) (st\<lparr>pq := pq1\<rparr>)"
    using dijkstra_select_out[of s t c "st\<lparr>pq := pq1\<rparr>"] by (auto simp: st1_def)
  have "pred_ok st1" using I' by (simp add: st1_def pred_ok_def)
  from dijkstra_target_effect[OF this, of g s c] obtain st' pf where
    t: "dijkstra_target g s c st1 = Some st'" "out st' = out st1 @ [pf]" "stype pf = PathFound" by blast
  have "selects_target t sel" using sel(2) tt by (auto simp: selects_target_def step_of_def)
  then have "run_shape t (out st @ [sel, pf])" unfolding run_shape_def using I' t(3) by blast
  then show "\<exists>steps rest. map_option out (dijkstra_target g s c (dijkstra_select s t c (st\<lparr>pq := pq1\<rparr>))) = Some steps
      \<and> steps = base @ rest \<and> run_shape t steps"
    using I' t(1,2) sel(1) by (auto simp: st1_def[symmetric])
qed

subsection \<open>The initial state\<close>

lemma map_of_fold_update_const:
  "map_of (fold (\<lambda>(k, n). AList.update k (f k)) xs acc) v =
     (if v \<in> fst ` set xs then Some (f v) else map_of acc v)"
proof (induction xs arbitrary: acc)
  case Nil
  show ?case by simp
next
  case (Cons x xs)
  obtain k n where x: "x = (k, n)" by (cases x)
  show ?case by (auto simp: x Cons.IH update_conv')
qed

lemma enqueue_empty [simp]: "enqueue [] a p = [(a, p)]"
  by (simp add: enqueue_def bubbleUp.simps)

lemma dijkstra_init_simps:
  "map_of (distances (dijkstra_init g s t)) v =
     (if v \<in> fst ` set (nodes g) then Some (if v = s then Num 0 else PosInf) else None)"
  "map_of (predecessors (dijkstra_init g s t)) v = (if v \<in> fst ` set (nodes g) then Some None else None)"
  "visited (dijkstra_init g s t) = []" "pq (dijkstra_init g s t) = [(s, Num 0)]"
  "out (dijkstra_init g s t) = []"
  by (simp_all add: dijkstra_init_def Let_def map_of_fold_update_const)

lemma pred_ok_init: "pred_ok (dijkstra_init g s t)"
  by (simp add: pred_ok_def dijkstra_init_simps)

lemma dijkstra_shape_inv_init:
  "dijkstra_shape_inv [init_step s (dijkstra_init g s t)] t (emit (init_step s (dijkstra_init g s t)) (dijkstra_init g s t))"
  using pred_ok_init[of g s t]
  by (simp add: dijkstra_shape_inv_def dijkstra_init_simps pred_ok_def plain_def terminal_def
        selects_target_def)

text \<open>The single-source engine always returns; its first step is \<open>init\<close>.\<close>

lemma generateDijkstraSteps_shape:
  "\<exists>steps rest. generateDijkstraSteps h g s t = Some steps \<and>
      steps = init_step s (dijkstra_init g s t) # rest \<and> run_shape t steps"
  using dijkstra_loop_shape[OF dijkstra_shape_inv_init, of h g s t]
  by (simp add: generateDijkstraSteps_def Let_def)

lemma run_shape_cases:
  assumes "run_shape t steps"
  obtains (final) pre fin where "steps = pre @ [fin]" "\<forall>s\<in>set pre. plain t s"
      "stype fin = (if truthy t then NoPath else Complete)"
  | (found) pre sel pf where "steps = pre @ [sel, pf]" "\<forall>s\<in>set pre. plain t s"
      "selects_target t sel" "stype pf = PathFound"
  using assms unfolding run_shape_def by blast

lemma count_plain:
  "\<forall>s\<in>set pre. plain t s \<Longrightarrow> terminal ty \<Longrightarrow> filter (\<lambda>s. stype s = ty) pre = []"
  by (induction pre) (auto simp: plain_def)

text \<open>C8: when a target is given and no step of the run selects it, the run ends with
  \<open>no-path\<close>, which is its only \<open>no-path\<close> step, and has no \<open>path-found\<close> step; when no
  target is given, the run ends with \<open>complete\<close>, its only \<open>complete\<close> step. The run
  always returns. A target is given when \<open>if (targetId)\<close> holds.\<close>

theorem dijkstra_final_step:
  "\<exists>steps. generateDijkstraSteps h g sourceId targetId = Some steps \<and> steps \<noteq> [] \<and>
     (truthy targetId \<and> (\<forall>s\<in>set steps. \<not> selects_target targetId s) \<longrightarrow>
        stype (last steps) = NoPath \<and> length (filter (\<lambda>s. stype s = NoPath) steps) = 1 \<and>
        (\<forall>s\<in>set steps. stype s \<noteq> PathFound)) \<and>
     (targetId = None \<longrightarrow>
        stype (last steps) = Complete \<and> length (filter (\<lambda>s. stype s = Complete) steps) = 1)"
proof -
  from generateDijkstraSteps_shape[of h g sourceId targetId] obtain steps where
    run: "generateDijkstraSteps h g sourceId targetId = Some steps" and shape: "run_shape targetId steps"
    by blast
  from shape have "steps \<noteq> [] \<and>
     (truthy targetId \<and> (\<forall>s\<in>set steps. \<not> selects_target targetId s) \<longrightarrow>
        stype (last steps) = NoPath \<and> length (filter (\<lambda>s. stype s = NoPath) steps) = 1 \<and>
        (\<forall>s\<in>set steps. stype s \<noteq> PathFound)) \<and>
     (targetId = None \<longrightarrow>
        stype (last steps) = Complete \<and> length (filter (\<lambda>s. stype s = Complete) steps) = 1)"
  proof (cases rule: run_shape_cases)
    case (final pre fin)
    have a: "filter (\<lambda>s. stype s = NoPath) pre = []" "filter (\<lambda>s. stype s = Complete) pre = []"
      using count_plain[OF final(2)] by (simp_all add: terminal_def)
    have b: "\<forall>s\<in>set pre. stype s \<noteq> PathFound" using final(2) by (auto simp: plain_def terminal_def)
    show ?thesis using final(3) a b by (auto simp: final(1) truthy_def)
  next
    case (found pre sel pf)
    have "sel \<in> set steps" by (simp add: found(1))
    moreover have "truthy targetId" "targetId \<noteq> None"
      using found(3) by (auto simp: selects_target_def truthy_def split: option.splits)
    ultimately show ?thesis using found(3) by (auto simp: found(1))
  qed
  then show ?thesis using run by blast
qed

text \<open>\<open>addNode(addNode(createGraph(false), A), B)\<close>: two nodes, no edge.\<close>

definition two_nodes :: "store \<times> graph" where
  "two_nodes = (case one_node of (h, g) \<Rightarrow> addNode h g (node_at ''B'' 0 0))"

lemma two_nodes_eq:
  "two_nodes = (\<lparr>cells = (\<lambda>r. []), fresh = 2\<rparr>,
               \<lparr>nodes = [(''A'', node_at ''A'' 0 0), (''B'', node_at ''B'' 0 0)], edges = [],
                adjacencyList = [(''A'', 0), (''B'', 1)], directed = False\<rparr>)"
  by (simp add: two_nodes_def one_node_eq addNode_def ensure_set_def node_at_def Let_def fun_eq_iff)

lemma run_two_nodes_target:
  "map_option (map (\<lambda>s. (stype s, currentNode s)))
     (generateDijkstraSteps (fst two_nodes) (snd two_nodes) ''A'' (Some ''B''))
   = Some [(Init, None), (SelectNode, Some ''A''), (MarkVisited, Some ''A''), (NoPath, None)]"
  unfolding two_nodes_eq by code_simp

theorem dijkstra_final_step_witness:
  "truthy (Some ''B'') \<and>
   map_option (\<lambda>steps. stype (last steps))
     (generateDijkstraSteps (fst two_nodes) (snd two_nodes) ''A'' (Some ''B'')) = Some NoPath \<and>
   map_option (\<lambda>steps. stype (last steps))
     (generateDijkstraSteps (fst two_nodes) (snd two_nodes) ''A'' None) = Some Complete"
proof -
  from dijkstra_final_step[of "fst two_nodes" "snd two_nodes" "''A''" "Some ''B''"] obtain steps where
    s: "generateDijkstraSteps (fst two_nodes) (snd two_nodes) ''A'' (Some ''B'') = Some steps"
    and c: "truthy (Some ''B'') \<and> (\<forall>s\<in>set steps. \<not> selects_target (Some ''B'') s) \<longrightarrow>
        stype (last steps) = NoPath" by blast
  have k: "map (\<lambda>s. (stype s, currentNode s)) steps
        = [(Init, None), (SelectNode, Some ''A''), (MarkVisited, Some ''A''), (NoPath, None)]"
    using run_two_nodes_target s by simp
  have "\<forall>s\<in>set steps. (stype s, currentNode s) \<noteq> (SelectNode, Some ''B'')"
  proof
    fix x assume "x \<in> set steps"
    then have "(stype x, currentNode x) \<in> set (map (\<lambda>s. (stype s, currentNode s)) steps)" by force
    then show "(stype x, currentNode x) \<noteq> (SelectNode, Some ''B'')" unfolding k by auto
  qed
  then have n: "\<forall>s\<in>set steps. \<not> selects_target (Some ''B'') s" by (auto simp: selects_target_def)
  have t: "truthy (Some ''B'')" by (simp add: truthy_def)
  from c t n have 1: "stype (last steps) = NoPath" by blast
  from dijkstra_final_step[of "fst two_nodes" "snd two_nodes" "''A''" None] obtain steps' where
    s': "generateDijkstraSteps (fst two_nodes) (snd two_nodes) ''A'' None = Some steps'"
    and 2: "stype (last steps') = Complete" by blast
  show ?thesis using t 1 2 s s' by simp
qed

section \<open>A source that is not in the graph\<close>

lemma run_source_absent:
  "map_option (map stype) (generateDijkstraSteps (fst one_node) (snd one_node) ''Z'' None)
     = Some [Init, SelectNode, MarkVisited, Complete]"
  unfolding one_node_eq by code_simp

text \<open>C5 as stated fails for the single-source engine: on the graph with the single node
  \<open>A\<close> and the source \<open>Z\<close>, it returns four steps and raises nothing.\<close>

theorem source_absent_counterexample:
  "map_of (nodes (snd one_node)) ''Z'' = None \<and>
   map_option (map stype) (generateDijkstraSteps (fst one_node) (snd one_node) ''Z'' None)
     = Some [Init, SelectNode, MarkVisited, Complete]"
  using run_source_absent by (simp add: one_node_eq)

text \<open>C5, amended: when the source id is not a key of \<open>graph.nodes\<close>, the single-source
  engine, which looks no id up, raises nothing and returns a sequence of steps that starts
  with \<open>init\<close>; the heuristic engine checks the target id only, and when that is not a key
  of \<open>graph.nodes\<close> either, it raises the error for a missing target before it yields a
  step.\<close>

theorem source_absent:
  "map_of (nodes g) sourceId = None \<Longrightarrow>
     (\<exists>s0 rest. generateDijkstraSteps h g sourceId tgt = Some (s0 # rest) \<and> stype s0 = Init) \<and>
     (map_of (nodes g) targetId = None \<longrightarrow>
        generateAStarSteps h g sourceId targetId heuristic = Some ([], Some (NodeNotFound targetId)))"
  using generateDijkstraSteps_shape[of h g sourceId tgt]
  by (auto simp: generateAStarSteps_def)

theorem source_absent_witness:
  "map_of (nodes (snd one_node)) ''Z'' = None \<and> map_of (nodes (snd one_node)) ''Y'' = None \<and>
   (\<exists>s0 rest. generateDijkstraSteps (fst one_node) (snd one_node) ''Z'' None = Some (s0 # rest) \<and> stype s0 = Init) \<and>
   generateAStarSteps (fst one_node) (snd one_node) ''Z'' ''Y'' manhattanDistance
     = Some ([], Some (NodeNotFound ''Y''))"
proof -
  have h: "map_of (nodes (snd one_node)) ''Z'' = None" by (simp add: one_node_eq)
  have t: "map_of (nodes (snd one_node)) ''Y'' = None" by (simp add: one_node_eq)
  show ?thesis
    using h t source_absent[OF h, of "fst one_node" None "''Y''" manhattanDistance] by simp
qed

section \<open>A graph without nodes\<close>

lemma run_no_nodes:
  "map_option (map stype) (generateDijkstraSteps empty_store (createGraph False) ''A'' None)
     = Some [Init, SelectNode, MarkVisited, Complete]"
  unfolding createGraph_def empty_store_def by code_simp

text \<open>C9 as stated fails for both engines: on the graph that \<open>createGraph\<close> returns, which
  has no node, the single-source engine returns four steps, and the heuristic engine
  raises the error for a missing target.\<close>

theorem no_nodes_counterexample:
  "nodes (createGraph False) = [] \<and>
   map_option (map stype) (generateDijkstraSteps empty_store (createGraph False) ''A'' None)
     = Some [Init, SelectNode, MarkVisited, Complete] \<and>
   generateAStarSteps empty_store (createGraph False) ''A'' ''B'' manhattanDistance
     = Some ([], Some (NodeNotFound ''B''))"
  using run_no_nodes by (simp add: createGraph_def generateAStarSteps_def)

text \<open>C9, amended: for a graph with no nodes, \<open>generateSteps\<close>, through which the engines are
  run, returns the empty step sequence and raises nothing, whatever the source, the
  target and the algorithm are: it does not call an engine. Called on such a graph, the
  single-source engine raises nothing and returns a sequence of steps that starts with
  \<open>init\<close>, and the heuristic engine raises the error for a missing target before it
  yields a step.\<close>

theorem no_nodes:
  "nodes g = [] \<Longrightarrow>
     generateSteps h g source target algorithm = Some (Inr []) \<and>
     (\<exists>s0 rest. generateDijkstraSteps h g sourceId tgt = Some (s0 # rest) \<and> stype s0 = Init) \<and>
     generateAStarSteps h g sourceId targetId heuristic = Some ([], Some (NodeNotFound targetId))"
  using generateDijkstraSteps_shape[of h g sourceId tgt]
  by (auto simp: generateSteps_def generateAStarSteps_def split: option.split)

theorem no_nodes_witness:
  "nodes (createGraph False) = [] \<and>
   generateSteps empty_store (createGraph False) (Some ''A'') (Some ''B'') AStar = Some (Inr []) \<and>
   (\<exists>s0 rest. generateDijkstraSteps empty_store (createGraph False) ''A'' (Some ''B'') = Some (s0 # rest) \<and>
      stype s0 = Init) \<and>
   generateAStarSteps empty_store (createGraph False) ''A'' ''B'' manhattanDistance
     = Some ([], Some (NodeNotFound ''B''))"
proof -
  have h: "nodes (createGraph False) = []" by (simp add: createGraph_def)
  show ?thesis
    using h no_nodes[OF h, of empty_store "Some ''A''" "Some ''B''" AStar "''A''" "Some ''B''" "''B''" manhattanDistance]
    by simp
qed

section \<open>The queue after a relaxation\<close>

text \<open>Three nodes \<open>S\<close>, \<open>A\<close>, \<open>B\<close> at the same place, and the edges \<open>S-A\<close> of weight 1,
  \<open>S-B\<close> of weight 10 and \<open>A-B\<close> of weight 1, added in this order to an undirected graph.\<close>

definition triangle :: "store \<times> graph" where
  "triangle =
     (\<lparr>cells = (\<lambda>r. if r = 0 then [''SA'', ''SB''] else if r = 1 then [''SA'', ''AB'']
                     else if r = 2 then [''SB'', ''AB''] else []), fresh = 3\<rparr>,
      \<lparr>nodes = [(''S'', node_at ''S'' 0 0), (''A'', node_at ''A'' 0 0), (''B'', node_at ''B'' 0 0)],
       edges = [(''SA'', (edge_of ''SA'' ''S'' ''A'' 1)\<lparr>e_directed := Some False\<rparr>),
                (''SB'', (edge_of ''SB'' ''S'' ''B'' 10)\<lparr>e_directed := Some False\<rparr>),
                (''AB'', (edge_of ''AB'' ''A'' ''B'' 1)\<lparr>e_directed := Some False\<rparr>)],
       adjacencyList = [(''S'', 0), (''A'', 1), (''B'', 2)], directed = False\<rparr>)"

lemma triangle_built:
  "triangle =
     (case addNode empty_store (createGraph False) (node_at ''S'' 0 0) of (h1, g1) \<Rightarrow>
      case addNode h1 g1 (node_at ''A'' 0 0) of (h2, g2) \<Rightarrow>
      case addNode h2 g2 (node_at ''B'' 0 0) of (h3, g3) \<Rightarrow>
      case addEdge h3 g3 (edge_of ''SA'' ''S'' ''A'' 1) of (h4, g4) \<Rightarrow>
      case addEdge h4 g4 (edge_of ''SB'' ''S'' ''B'' 10) of (h5, g5) \<Rightarrow>
      addEdge h5 g5 (edge_of ''AB'' ''A'' ''B'' 1))"
  by (simp add: triangle_def addNode_def addEdge_def createGraph_def empty_store_def ensure_set_def
        cell_add_def set_add_def node_at_def edge_of_def Let_def fun_eq_iff)

text \<open>In the single-source engine, a relaxation that improves the distance of a neighbor
  adds one entry for it, with the new distance as priority, and keeps all the entries the
  queue had.\<close>

lemma dijkstra_relaxation_pushes:
  assumes "n \<notin> set (visited st)"
    and "js_lt (js_add (num_get (distances st) c) (Num w)) (num_get (distances st) n)"
  shows "mset (pq (dijkstra_neighbor t c (n, e, w) st))
           = add_mset (n, js_add (num_get (distances st) c) (Num w)) (mset (pq st))"
  using dijkstra_neighbor_relax(4)[OF assms refl, of t e] by (simp add: mset_enqueue)

text \<open>C3 fails on the code of the heuristic engine, which pushes only
  \<open>if (!inOpenSet.has(neighborId))\<close>. In its run from \<open>S\<close> to \<open>B\<close> on the graph above, the
  relaxation of \<open>B\<close> through \<open>A\<close> (old distance 10, new distance 2; the eighth and ninth
  steps) leaves the queue as it was: the entry of \<open>B\<close> keeps the priority 10 and no entry
  is added. Each step is shown with its kind, the edge under examination (neighbor, old
  distance, new distance) and the queue.\<close>

theorem astar_relaxation_without_push:
  "map_option (\<lambda>r. (map (\<lambda>s. (stype s,
        map_option (\<lambda>e. (ce_to e, ce_oldDistance e, ce_newDistance e)) (currentEdge s), queue s)) (fst r), snd r))
     (generateAStarSteps (fst triangle) (snd triangle) ''S'' ''B'' manhattanDistance)
   = Some ([(Init, None, [(''S'', Num 0)]),
            (SelectNode, None, []),
            (ExamineEdge, Some (''A'', PosInf, Num 1), []),
            (RelaxEdge, Some (''A'', PosInf, Num 1), [(''A'', Num 1)]),
            (ExamineEdge, Some (''B'', PosInf, Num 10), [(''A'', Num 1)]),
            (RelaxEdge, Some (''B'', PosInf, Num 10), [(''A'', Num 1), (''B'', Num 10)]),
            (SelectNode, None, [(''B'', Num 10)]),
            (ExamineEdge, Some (''B'', Num 10, Num 2), [(''B'', Num 10)]),
            (RelaxEdge, Some (''B'', Num 10, Num 2), [(''B'', Num 10)]),
            (SelectNode, None, []),
            (PathFound, None, [])], None)"
  unfolding triangle_def by code_simp

lemma astar_init_simps:
  "map_of (distances (astar_init g s t hv)) v =
     (if v = s then Some (Num 0) else if v \<in> fst ` set (nodes g) then Some PosInf else None)"
  "map_of (predecessors (astar_init g s t hv)) v = (if v \<in> fst ` set (nodes g) then Some None else None)"
  "visited (astar_init g s t hv) = []" "pq (astar_init g s t hv) = [(s, hv)]"
  "out (astar_init g s t hv) = []" "inOpenSet (astar_init g s t hv) = [s]"
  by (simp_all add: astar_init_def Let_def map_of_fold_update_const update_conv' set_add_def)

section \<open>What both engines do to distances, predecessors and the visited set\<close>

text \<open>
  Both engines change \<open>distances\<close>, \<open>predecessors\<close> and \<open>visited\<close> in two ways only: a node
  taken from the queue is added to \<open>visited\<close>, and a neighbor that is not visited, of a
  node that is, is relaxed. A step copies the three as they are when it is yielded. The
  relation \<open>reach\<close> collects the states (distances, predecessors, visited, ids that have
  been in the queue, steps yielded) that such changes lead to from a first state; \<open>t\<close>
  is the target, if there is one.
\<close>

type_synonym trace_state =
  "(string \<times> jsnum) list \<times> (string \<times> string option) list \<times> string list \<times> string set \<times> step list"

inductive reach :: "store \<Rightarrow> graph \<Rightarrow> string option \<Rightarrow> trace_state \<Rightarrow> trace_state \<Rightarrow> bool"
  for h :: store and g :: graph and t :: "string option" and A0 :: trace_state where
  start: "reach h g t A0 A0"
| yield: "reach h g t A0 (ds, ps, vs, ids, os) \<Longrightarrow> distances x = ds \<Longrightarrow> predecessors x = ps
          \<Longrightarrow> visited x = vs \<Longrightarrow> stype x \<noteq> PathFound
          \<Longrightarrow> reach h g t A0 (ds, ps, vs, ids, os @ [x])"
| visit: "reach h g t A0 (ds, ps, vs, ids, os) \<Longrightarrow> c \<in> ids \<Longrightarrow> c \<notin> set vs
          \<Longrightarrow> reach h g t A0 (ds, ps, set_add c vs, ids, os)"
| relax: "reach h g t A0 (ds, ps, vs, ids, os) \<Longrightarrow> c \<in> set vs \<Longrightarrow> n \<notin> set vs
          \<Longrightarrow> (n, e, w) \<in> set (getNeighbors h g c)
          \<Longrightarrow> js_lt (js_add (num_get ds c) (Num w)) (num_get ds n)
          \<Longrightarrow> reach h g t A0 (AList.update n (js_add (num_get ds c) (Num w)) ds,
                               AList.update n (Some c) ps, vs, insert n ids, os)"
| found: "reach h g t A0 (ds, ps, vs, ids, os) \<Longrightarrow> t = Some tv \<Longrightarrow> tv \<in> ids
          \<Longrightarrow> reconstructPath ps tv = Some p
          \<Longrightarrow> distances x = ds \<Longrightarrow> predecessors x = ps \<Longrightarrow> visited x = vs
          \<Longrightarrow> stype x = PathFound \<Longrightarrow> shortestPath x = Some p
          \<Longrightarrow> totalDistance x = Some (num_get ds tv)
          \<Longrightarrow> reach h g t A0 (ds, ps, vs, ids, os @ [x])"

subsection \<open>Predecessors were visited earlier\<close>

definition pred_order :: "(string \<times> string option) list \<Rightarrow> string list \<Rightarrow> bool" where
  "pred_order ps vs = (\<forall>v c. map_of ps v = Some (Some c) \<longrightarrow> rank vs c < rank vs v)"

lemma pred_ok_pred_order: "pred_ok st = pred_order (predecessors st) (visited st)"
  by (simp add: pred_ok_def pred_order_def)

lemma reach_pred_order:
  assumes "reach h g t A0 A" "A0 = (ds0, ps0, vs0, ids0, os0)" "pred_order ps0 vs0"
    "A = (ds, ps, vs, ids, os)"
  shows "pred_order ps vs"
  using assms
proof (induction arbitrary: ds ps vs ids os rule: reach.induct)
  case start
  then show ?case by simp
next
  case (yield ds' ps' vs' ids' os' x)
  then show ?case by simp
next
  case (visit ds' ps' vs' ids' os' c)
  from visit.IH[OF visit.prems(1,2) refl] visit.prems(3)
  show ?case by (auto simp: pred_order_def rank_set_add)
next
  case (relax ds' ps' vs' ids' os' c n e w)
  from relax.IH[OF relax.prems(1,2) refl] relax.prems(3) rank_in[OF relax.hyps(2)] rank_notin[OF relax.hyps(3)]
  show ?case by (auto simp: pred_order_def update_conv' split: if_splits)
next
  case (found ds' ps' vs' ids' os' tv p x)
  then show ?case by simp
qed

subsection \<open>Snapshots are monotone\<close>

text \<open>A stored distance is a number or an infinity: it compares with itself.\<close>

definition proper :: "(string \<times> jsnum) list \<Rightarrow> bool" where
  "proper ds = (\<forall>k v. map_of ds k = Some v \<longrightarrow> js_le v v)"

text \<open>Every distance recorded in \<open>a\<close> is recorded in \<open>b\<close> too, and is not larger there.\<close>

definition dist_le :: "(string \<times> jsnum) list \<Rightarrow> (string \<times> jsnum) list \<Rightarrow> bool" where
  "dist_le a b = (\<forall>k v. map_of a k = Some v \<longrightarrow> (\<exists>v'. map_of b k = Some v' \<and> js_le v' v))"

definition step_le :: "step \<Rightarrow> step \<Rightarrow> bool" where
  "step_le x y = (set (visited x) \<subseteq> set (visited y) \<and> dist_le (distances x) (distances y))"

lemma js_le_trans: "js_le a b \<Longrightarrow> js_le b c \<Longrightarrow> js_le a c"
  by (cases a; cases b; cases c) auto

lemma js_lt_le: "js_lt a b \<Longrightarrow> js_le a b"
  by (cases a; cases b) auto

lemma js_lt_proper: "js_lt a b \<Longrightarrow> js_le a a"
  by (cases a; cases b) auto

lemma dist_le_refl: "proper ds \<Longrightarrow> dist_le ds ds"
  by (force simp: proper_def dist_le_def)

lemma dist_le_trans: "dist_le a b \<Longrightarrow> dist_le b c \<Longrightarrow> dist_le a c"
  unfolding dist_le_def by (meson js_le_trans)

lemma dist_le_relax:
  assumes "proper ds" "js_lt new (num_get ds n)"
  shows "dist_le ds (AList.update n new ds)" "proper (AList.update n new ds)"
proof -
  show "dist_le ds (AList.update n new ds)"
    unfolding dist_le_def
  proof (intro allI impI)
    fix k v assume kv: "map_of ds k = Some v"
    show "\<exists>v'. map_of (AList.update n new ds) k = Some v' \<and> js_le v' v"
    proof (cases "k = n")
      case True
      then have "num_get ds n = v" using kv by (simp add: num_get_def)
      then show ?thesis using True assms(2) by (simp add: update_conv' js_lt_le)
    next
      case False
      have "js_le v v" using assms(1) kv by (simp add: proper_def)
      then show ?thesis using False kv by (simp add: update_conv')
    qed
  qed
  show "proper (AList.update n new ds)"
    using assms(1) js_lt_proper[OF assms(2)] by (auto simp: proper_def update_conv')
qed

definition mono_trace :: "trace_state \<Rightarrow> bool" where
  "mono_trace A = (case A of (ds, ps, vs, ids, os) \<Rightarrow>
     proper ds \<and> sorted_wrt step_le os \<and>
     (\<forall>x\<in>set os. set (visited x) \<subseteq> set vs \<and> dist_le (distances x) ds))"

lemma mono_trace_yield:
  assumes "mono_trace (ds, ps, vs, ids, os)" "distances x = ds" "visited x = vs"
  shows "mono_trace (ds, ps', vs, ids', os @ [x])"
  using assms by (auto simp: mono_trace_def sorted_wrt_append step_le_def dist_le_refl)

lemma reach_mono_trace:
  assumes "reach h g t A0 A" "mono_trace A0"
  shows "mono_trace A"
  using assms
proof (induction rule: reach.induct)
  case start
  then show ?case by simp
next
  case (yield ds ps vs ids os x)
  then show ?case by (auto intro: mono_trace_yield)
next
  case (visit ds ps vs ids os c)
  then show ?case by (auto simp: mono_trace_def set_add_def)
next
  case (relax ds ps vs ids os c n e w)
  from relax.IH[OF relax.prems] have m: "proper ds" "sorted_wrt step_le os"
    "\<forall>x\<in>set os. set (visited x) \<subseteq> set vs \<and> dist_le (distances x) ds"
    by (auto simp: mono_trace_def)
  note r = dist_le_relax[OF m(1) relax.hyps(5)]
  have "\<forall>x\<in>set os. dist_le (distances x) (AList.update n (js_add (num_get ds c) (Num w)) ds)"
    using m(3) r(1) dist_le_trans by blast
  then show ?case using m r(2) by (simp add: mono_trace_def)
next
  case (found ds ps vs ids os tv p x)
  then show ?case by (auto intro: mono_trace_yield)
qed

subsection \<open>One round over a neighbor, in either engine\<close>

definition nb_effect ::
  "string \<Rightarrow> string \<times> string \<times> real \<Rightarrow> 'a dstate_scheme \<Rightarrow> 'a dstate_scheme \<Rightarrow> bool" where
  "nb_effect c nb st st' = (case nb of (n, e, w) \<Rightarrow>
     (distances st' = distances st \<and> predecessors st' = predecessors st \<and> visited st' = visited st \<and>
      pq st' = pq st \<and>
      (\<exists>new. out st' = out st @ new \<and>
         (\<forall>x\<in>set new. (stype x = ExamineEdge \<or> stype x = SkipEdge) \<and> distances x = distances st \<and>
                       predecessors x = predecessors st \<and> visited x = visited st)))
     \<or>
     (n \<notin> set (visited st) \<and> js_lt (js_add (num_get (distances st) c) (Num w)) (num_get (distances st) n) \<and>
      distances st' = AList.update n (js_add (num_get (distances st) c) (Num w)) (distances st) \<and>
      predecessors st' = AList.update n (Some c) (predecessors st) \<and> visited st' = visited st \<and>
      fst ` set (pq st') \<subseteq> insert n (fst ` set (pq st)) \<and>
      (\<exists>ex rx. out st' = out st @ [ex, rx] \<and> step_of ex ExamineEdge (Some c) st \<and>
                 step_of rx RelaxEdge (Some c) st')))"

lemma dijkstra_neighbor_effect: "nb_effect c nb st (dijkstra_neighbor t c nb st)"
proof -
  obtain n e w where nb: "nb = (n, e, w)" by (cases nb)
  let ?st' = "dijkstra_neighbor t c (n, e, w) st"
  consider (vis) "n \<in> set (visited st)"
    | (relax) "n \<notin> set (visited st)" "js_lt (js_add (num_get (distances st) c) (Num w)) (num_get (distances st) n)"
    | (skip) "n \<notin> set (visited st)" "\<not> js_lt (js_add (num_get (distances st) c) (Num w)) (num_get (distances st) n)"
    by blast
  then show ?thesis
  proof cases
    case vis
    have "out st = out st @ []" by simp
    then show ?thesis unfolding nb nb_effect_def dijkstra_neighbor_visited[OF vis] by force
  next
    case relax
    note r = dijkstra_neighbor_relax[OF relax refl, of t e]
    from r(5) obtain ex rx where o: "out ?st' = out st @ [ex, rx]"
      "step_of ex ExamineEdge (Some c) st" "step_of rx RelaxEdge (Some c) ?st'" by (elim exE conjE)
    have "fst ` set (pq ?st') \<subseteq> insert n (fst ` set (pq st))" by (simp add: r(4) set_enqueue)
    then show ?thesis unfolding nb nb_effect_def using relax r(1,2,3) o by auto
  next
    case skip
    note r = dijkstra_neighbor_skip[OF skip refl, of t e]
    from r(5) obtain ex sk where o: "out ?st' = out st @ [ex, sk]"
      "step_of ex ExamineEdge (Some c) st" "step_of sk SkipEdge (Some c) st" by (elim exE conjE)
    have "\<forall>x\<in>set [ex, sk]. (stype x = ExamineEdge \<or> stype x = SkipEdge) \<and> distances x = distances st \<and>
                       predecessors x = predecessors st \<and> visited x = visited st"
      using o(2,3) by (simp add: step_of_def)
    then show ?thesis unfolding nb nb_effect_def using r(1,2,3,4) o(1) by auto
  qed
qed

lemma astar_neighbor_effect:
  assumes "astar_neighbor g hr tn t c nb st = (st', None)"
  shows "nb_effect c nb st st'"
proof -
  obtain n e w where nb: "nb = (n, e, w)" by (cases nb)
  note a' = assms[unfolded nb]
  consider (vis) "n \<in> set (visited st)"
    | (relax) "n \<notin> set (visited st)" "js_lt (js_add (num_get (distances st) c) (Num w)) (num_get (distances st) n)"
    | (skip) "n \<notin> set (visited st)" "\<not> js_lt (js_add (num_get (distances st) c) (Num w)) (num_get (distances st) n)"
    by blast
  then show ?thesis
  proof cases
    case vis
    have "st' = st" using a' astar_neighbor_visited[OF vis, of g hr tn t c e w] by simp
    moreover have "out st = out st @ []" by simp
    ultimately show ?thesis unfolding nb nb_effect_def by force
  next
    case relax
    note r = astar_neighbor_relax[OF relax a']
    from r(5) obtain ex rx where o: "out st' = out st @ [ex, rx]"
      "step_of ex ExamineEdge (Some c) st" "step_of rx RelaxEdge (Some c) st'" by (elim exE conjE)
    have "fst ` set (pq st') \<subseteq> insert n (fst ` set (pq st))"
      using r(4) by (auto simp: set_enqueue split: if_splits)
    then show ?thesis unfolding nb nb_effect_def using relax r(1,2,3) o by auto
  next
    case skip
    note r = astar_neighbor_skip[OF skip a']
    from r(5) obtain ex sk where o: "out st' = out st @ [ex, sk]"
      "step_of ex ExamineEdge (Some c) st" "step_of sk SkipEdge (Some c) st" by (elim exE conjE)
    have "\<forall>x\<in>set [ex, sk]. (stype x = ExamineEdge \<or> stype x = SkipEdge) \<and> distances x = distances st \<and>
                       predecessors x = predecessors st \<and> visited x = visited st"
      using o(2,3) by (simp add: step_of_def)
    then show ?thesis unfolding nb nb_effect_def using r(1,2,3,4) o(1) by auto
  qed
qed

subsection \<open>The engines stay within \<open>reach\<close>\<close>

definition sim :: "store \<Rightarrow> graph \<Rightarrow> string option \<Rightarrow> trace_state \<Rightarrow> 'a dstate_scheme \<Rightarrow> bool" where
  "sim h g t A0 st =
     (\<exists>ids. fst ` set (pq st) \<subseteq> ids \<and>
            reach h g t A0 (distances st, predecessors st, visited st, ids, out st))"

lemma reach_yields:
  assumes "reach h g t A0 (ds, ps, vs, ids, os)"
    and "\<forall>x\<in>set new. distances x = ds \<and> predecessors x = ps \<and> visited x = vs \<and> stype x \<noteq> PathFound"
  shows "reach h g t A0 (ds, ps, vs, ids, os @ new)"
  using assms(2)
proof (induction new rule: rev_induct)
  case Nil
  show ?case using assms(1) by simp
next
  case (snoc x xs)
  have p: "\<forall>y\<in>set xs. distances y = ds \<and> predecessors y = ps \<and> visited y = vs \<and> stype y \<noteq> PathFound"
  proof
    fix y assume "y \<in> set xs"
    then have "y \<in> set (xs @ [x])" by simp
    then show "distances y = ds \<and> predecessors y = ps \<and> visited y = vs \<and> stype y \<noteq> PathFound"
      by (rule snoc.prems[rule_format])
  qed
  have r: "reach h g t A0 (ds, ps, vs, ids, os @ xs)" by (rule snoc.IH[OF p])
  have "x \<in> set (xs @ [x])" by simp
  from snoc.prems[rule_format, OF this]
  have x: "distances x = ds" "predecessors x = ps" "visited x = vs" "stype x \<noteq> PathFound"
    by blast+
  have "reach h g t A0 (ds, ps, vs, ids, (os @ xs) @ [x])" by (rule reach.yield[OF r x])
  then show ?case by (simp only: append_assoc)
qed

lemma sim_yield:
  assumes "sim h g t A0 st" "distances x = distances st" "predecessors x = predecessors st"
    "visited x = visited st" "stype x \<noteq> PathFound"
    "distances st' = distances st" "predecessors st' = predecessors st" "visited st' = visited st"
    "set (pq st') \<subseteq> set (pq st)" "out st' = out st @ [x]"
  shows "sim h g t A0 st'"
proof -
  from assms(1) obtain ids where i: "fst ` set (pq st) \<subseteq> ids"
    "reach h g t A0 (distances st, predecessors st, visited st, ids, out st)" unfolding sim_def by blast
  have "fst ` set (pq st') \<subseteq> ids" using i(1) assms(9) by blast
  moreover have "reach h g t A0 (distances st, predecessors st, visited st, ids, out st @ [x])"
    using reach.yield[OF i(2) assms(2,3,4,5)] .
  ultimately show ?thesis unfolding sim_def assms(6,7,8,10) by blast
qed

lemma sim_nb_effect:
  assumes "sim h g t A0 st" "c \<in> set (visited st)" "nb \<in> set (getNeighbors h g c)"
    "nb_effect c nb st st'"
  shows "sim h g t A0 st'"
proof -
  obtain n e w where nb: "nb = (n, e, w)" by (cases nb)
  from assms(1) obtain ids where i: "fst ` set (pq st) \<subseteq> ids"
    "reach h g t A0 (distances st, predecessors st, visited st, ids, out st)" unfolding sim_def by blast
  from assms(4)[unfolded nb nb_effect_def] consider
    (same) new where "distances st' = distances st" "predecessors st' = predecessors st"
      "visited st' = visited st" "pq st' = pq st" "out st' = out st @ new"
      "\<forall>x\<in>set new. (stype x = ExamineEdge \<or> stype x = SkipEdge) \<and> distances x = distances st \<and>
                       predecessors x = predecessors st \<and> visited x = visited st"
    | (relax) ex rx where "n \<notin> set (visited st)"
      "js_lt (js_add (num_get (distances st) c) (Num w)) (num_get (distances st) n)"
      "distances st' = AList.update n (js_add (num_get (distances st) c) (Num w)) (distances st)"
      "predecessors st' = AList.update n (Some c) (predecessors st)" "visited st' = visited st"
      "fst ` set (pq st') \<subseteq> insert n (fst ` set (pq st))"
      "out st' = out st @ [ex, rx]" "step_of ex ExamineEdge (Some c) st" "step_of rx RelaxEdge (Some c) st'"
    by auto
  then show ?thesis
  proof cases
    case same
    have "\<forall>x\<in>set new. distances x = distances st \<and> predecessors x = predecessors st \<and>
            visited x = visited st \<and> stype x \<noteq> PathFound"
      using same(6) by auto
    from reach_yields[OF i(2) this] show ?thesis unfolding sim_def same(1,2,3,4,5) using i(1) by blast
  next
    case relax
    have 1: "reach h g t A0 (distances st, predecessors st, visited st, ids, out st @ [ex])"
      using reach.yield[OF i(2), of ex] relax(8) by (simp add: step_of_def)
    have 2: "reach h g t A0 (distances st', predecessors st', visited st', insert n ids, out st @ [ex])"
      using reach.relax[OF 1 assms(2) relax(1) assms(3)[unfolded nb] relax(2)] relax(3,4,5) by simp
    have 3: "reach h g t A0 (distances st', predecessors st', visited st', insert n ids, (out st @ [ex]) @ [rx])"
      using reach.yield[OF 2, of rx] relax(9) by (simp add: step_of_def)
    have "fst ` set (pq st') \<subseteq> insert n ids" using relax(6) i(1) by blast
    then show ?thesis unfolding sim_def using 3 relax(7) by auto
  qed
qed

lemma dijkstra_neighbors_sim:
  assumes "sim h g t A0 st" "c \<in> set (visited st)" "set nbs \<subseteq> set (getNeighbors h g c)"
  shows "sim h g t A0 (fold (dijkstra_neighbor tgt c) nbs st)"
  using assms
proof (induction nbs arbitrary: st)
  case Nil
  then show ?case by simp
next
  case (Cons nb nbs)
  have 1: "sim h g t A0 (dijkstra_neighbor tgt c nb st)"
    using sim_nb_effect[OF Cons.prems(1,2) _ dijkstra_neighbor_effect] Cons.prems(3) by simp
  have 2: "c \<in> set (visited (dijkstra_neighbor tgt c nb st))"
    using Cons.prems(2) by (simp add: dijkstra_neighbor_frame(1))
  show ?case using Cons.IH[OF 1 2] Cons.prems(3) by simp
qed

text \<open>The steps yielded so far are those of a state within \<open>reach\<close>: what is left of
  \<open>sim\<close> when the engine throws.\<close>

definition sim_out :: "store \<Rightarrow> graph \<Rightarrow> string option \<Rightarrow> trace_state \<Rightarrow> step list \<Rightarrow> bool" where
  "sim_out h g t A0 os = (\<exists>ds ps vs ids. reach h g t A0 (ds, ps, vs, ids, os))"

lemma sim_sim_out: "sim h g t A0 st \<Longrightarrow> sim_out h g t A0 (out st)"
  unfolding sim_def sim_out_def by blast

lemma astar_neighbor_error_sim:
  assumes "sim h g tt A0 st" "astar_neighbor g hr tn t c nb st = (st', Some err)"
  shows "sim_out h g tt A0 (out st')"
proof -
  obtain n e w where nb: "nb = (n, e, w)" by (cases nb)
  from assms(1) obtain ids where i:
    "reach h g tt A0 (distances st, predecessors st, visited st, ids, out st)" unfolding sim_def by blast
  from astar_neighbor_error[OF assms(2)[unfolded nb]] show ?thesis
  proof
    assume "out st' = out st"
    then show ?thesis unfolding sim_out_def using i by auto
  next
    assume "\<exists>ex. out st' = out st @ [ex] \<and> step_of ex ExamineEdge (Some c) st \<and> queue ex = pq st"
    then obtain ex where ex: "out st' = out st @ [ex]" "step_of ex ExamineEdge (Some c) st" by blast
    have "reach h g tt A0 (distances st, predecessors st, visited st, ids, out st @ [ex])"
      using reach.yield[OF i, of ex] ex(2) by (simp add: step_of_def)
    then show ?thesis unfolding sim_out_def ex(1) by blast
  qed
qed

lemma astar_neighbors_sim:
  assumes "sim h g tt A0 st" "c \<in> set (visited st)" "set nbs \<subseteq> set (getNeighbors h g c)"
    "astar_neighbors g hr tn t c nbs st = (st', r)"
  shows "(r = None \<longrightarrow> sim h g tt A0 st') \<and> sim_out h g tt A0 (out st')"
  using assms
proof (induction nbs arbitrary: st)
  case Nil
  then show ?case by (simp add: sim_sim_out)
next
  case (Cons nb nbs)
  obtain st1 r1 where n1: "astar_neighbor g hr tn t c nb st = (st1, r1)"
    by (cases "astar_neighbor g hr tn t c nb st")
  show ?case
  proof (cases r1)
    case None
    have 1: "sim h g tt A0 st1"
      using sim_nb_effect[OF Cons.prems(1,2) _ astar_neighbor_effect[OF n1[unfolded None]]] Cons.prems(3) by simp
    have 2: "c \<in> set (visited st1)" using Cons.prems(2) astar_neighbor_frame(1)[OF n1] by simp
    have "astar_neighbors g hr tn t c nbs st1 = (st', r)" using Cons.prems(4) n1 None by simp
    from Cons.IH[OF 1 2 _ this] Cons.prems(3) show ?thesis by simp
  next
    case (Some e)
    then have "st' = st1" "r = Some e" using Cons.prems(4) n1 by simp_all
    then show ?thesis using astar_neighbor_error_sim[OF Cons.prems(1) n1[unfolded Some]] by simp
  qed
qed

lemma sim_reachD:
  assumes "sim h g t A0 st"
  obtains ids where "fst ` set (pq st) \<subseteq> ids"
    "reach h g t A0 (distances st, predecessors st, visited st, ids, out st)"
  using assms unfolding sim_def by blast

lemma simI:
  "fst ` set (pq st) \<subseteq> ids \<Longrightarrow> reach h g t A0 (ds, ps, vs, ids, os) \<Longrightarrow> ds = distances st
     \<Longrightarrow> ps = predecessors st \<Longrightarrow> vs = visited st \<Longrightarrow> os = out st \<Longrightarrow> sim h g t A0 st"
  unfolding sim_def by blast

lemma reach_pred_ok:
  assumes "reach h g t (ds0, ps0, vs0, ids0, os0) (distances st, predecessors st, visited st, ids, out st)"
    "pred_order ps0 vs0"
  shows "pred_ok st"
  using reach_pred_order[OF assms(1) refl assms(2) refl] by (simp add: pred_ok_pred_order)

subsection \<open>The single-source engine\<close>

lemma dijkstra_visit_sim:
  assumes "sim h g t A0 st" "c \<in> fst ` set (pq st)" "c \<notin> set (visited st)" "set pq1 \<subseteq> set (pq st)"
  shows "sim h g t A0 (dijkstra_visit h g s t c (dijkstra_select s t c (st\<lparr>pq := pq1\<rparr>)))"
proof -
  define st1 where "st1 = dijkstra_select s t c (st\<lparr>pq := pq1\<rparr>)"
  define st2 where "st2 = (if c \<noteq> s \<and> Some c \<noteq> t
       then st1\<lparr>visited := set_add c (visited st1), nodeStates := AList.update c NVisited (nodeStates st1)\<rparr>
       else st1\<lparr>visited := set_add c (visited st1)\<rparr>)"
  define st3 where "st3 = emit (mark_visited_step c st2) st2"
  define st4 where "st4 = fold (dijkstra_neighbor t c) (getNeighbors h g c) st3"
  have v: "dijkstra_visit h g s t c st1 = st4\<lparr>edgeStates := reset_relaxed (edgeStates st4)\<rparr>"
    unfolding dijkstra_visit_unfold st2_def st3_def st4_def Let_def ..
  from assms(1) obtain ids where i: "fst ` set (pq st) \<subseteq> ids"
    "reach h g t A0 (distances st, predecessors st, visited st, ids, out st)" by (rule sim_reachD)
  obtain sel where sel: "out st1 = out st @ [sel]" "step_of sel SelectNode (Some c) (st\<lparr>pq := pq1\<rparr>)"
    using dijkstra_select_out[of s t c "st\<lparr>pq := pq1\<rparr>"] by (auto simp: st1_def)
  have s3: "visited st3 = set_add c (visited st)" "predecessors st3 = predecessors st"
    "distances st3 = distances st" "out st3 = out st @ [sel, mark_visited_step c st2]" "pq st3 = pq1"
    by (simp_all add: st3_def st2_def st1_def[symmetric] sel) (simp_all add: st1_def)
  have mv: "visited (mark_visited_step c st2) = set_add c (visited st)"
    "predecessors (mark_visited_step c st2) = predecessors st"
    "distances (mark_visited_step c st2) = distances st"
    by (simp_all add: st2_def) (simp_all add: st1_def)
  have 1: "reach h g t A0 (distances st, predecessors st, visited st, ids, out st @ [sel])"
    using reach.yield[OF i(2), of sel] sel(2) by (simp add: step_of_def)
  have 2: "reach h g t A0 (distances st, predecessors st, set_add c (visited st), ids, out st @ [sel])"
    using reach.visit[OF 1 _ assms(3)] assms(2) i(1) by blast
  have 3: "reach h g t A0 (distances st, predecessors st, set_add c (visited st), ids,
             (out st @ [sel]) @ [mark_visited_step c st2])"
    by (rule reach.yield[OF 2 mv(3) mv(2) mv(1)]) simp
  have "fst ` set pq1 \<subseteq> ids" using assms(4) i(1) by blast
  then have "sim h g t A0 st3" using 3 by (intro simI[where ids = ids]) (simp_all add: s3)
  moreover have "c \<in> set (visited st3)" by (simp add: s3 set_add_def)
  ultimately have "sim h g t A0 st4" unfolding st4_def by (intro dijkstra_neighbors_sim) simp_all
  then show ?thesis unfolding st1_def[symmetric] v by (simp add: sim_def)
qed

lemma dijkstra_loop_sim:
  assumes "sim h g t (ds0, ps0, vs0, ids0, os0) st0" "pred_order ps0 vs0"
  shows "\<exists>steps ds ps vs ids. dijkstra_loop h g s t st0 = Some steps \<and>
           reach h g t (ds0, ps0, vs0, ids0, os0) (ds, ps, vs, ids, steps)"
proof (rule dijkstra_loop_rule[where I = "sim h g t (ds0, ps0, vs0, ids0, os0)"
        and Q = "\<lambda>r. \<exists>steps ds ps vs ids. r = Some steps \<and>
                   reach h g t (ds0, ps0, vs0, ids0, os0) (ds, ps, vs, ids, steps)"])
  show "sim h g t (ds0, ps0, vs0, ids0, os0) st0" by fact
next
  fix st :: dstate and c pq1
  assume I: "sim h g t (ds0, ps0, vs0, ids0, os0) st" and ne: "\<not> isEmpty (pq st)"
    and dq: "dequeue (pq st) = (Some c, pq1)"
  from I obtain ids where i: "fst ` set (pq st) \<subseteq> ids"
    "reach h g t (ds0, ps0, vs0, ids0, os0) (distances st, predecessors st, visited st, ids, out st)"
    by (rule sim_reachD)
  have "fst ` set pq1 \<subseteq> ids" using dequeue_Some(3)[OF ne dq] i(1) by blast
  then show "sim h g t (ds0, ps0, vs0, ids0, os0) (st\<lparr>pq := pq1\<rparr>)"
    using i(2) by (intro simI[where ids = ids]) simp_all
next
  fix st :: dstate and c pq1
  assume I: "sim h g t (ds0, ps0, vs0, ids0, os0) st" and ne: "\<not> isEmpty (pq st)"
    and dq: "dequeue (pq st) = (Some c, pq1)" and nv: "c \<notin> set (visited st)"
  show "sim h g t (ds0, ps0, vs0, ids0, os0) (dijkstra_visit h g s t c (dijkstra_select s t c (st\<lparr>pq := pq1\<rparr>)))"
    by (rule dijkstra_visit_sim[OF I dequeue_Some(2)[OF ne dq] nv dequeue_Some(3)[OF ne dq]])
next
  fix st :: dstate
  assume I: "sim h g t (ds0, ps0, vs0, ids0, os0) st"
  from I obtain ids where i: "fst ` set (pq st) \<subseteq> ids"
    "reach h g t (ds0, ps0, vs0, ids0, os0) (distances st, predecessors st, visited st, ids, out st)"
    by (rule sim_reachD)
  have "\<exists>fin. out (dijkstra_finish s t st) = out st @ [fin] \<and> distances fin = distances st \<and>
          predecessors fin = predecessors st \<and> visited fin = visited st \<and> stype fin \<noteq> PathFound"
    by (auto simp: dijkstra_finish_def split: option.split)
  then obtain fin where f: "out (dijkstra_finish s t st) = out st @ [fin]" "distances fin = distances st"
    "predecessors fin = predecessors st" "visited fin = visited st" "stype fin \<noteq> PathFound" by blast
  from reach.yield[OF i(2) f(2,3,4,5)]
  show "\<exists>steps ds ps vs ids. Some (out (dijkstra_finish s t st)) = Some steps \<and>
           reach h g t (ds0, ps0, vs0, ids0, os0) (ds, ps, vs, ids, steps)"
    unfolding f(1) by blast
next
  fix st :: dstate and c pq1
  assume I: "sim h g t (ds0, ps0, vs0, ids0, os0) st" and ne: "\<not> isEmpty (pq st)"
    and dq: "dequeue (pq st) = (Some c, pq1)" and nv: "c \<notin> set (visited st)"
    and tc: "Some c = t"
  from I obtain ids where i: "fst ` set (pq st) \<subseteq> ids"
    "reach h g t (ds0, ps0, vs0, ids0, os0) (distances st, predecessors st, visited st, ids, out st)"
    by (rule sim_reachD)
  define st1 where "st1 = dijkstra_select s t c (st\<lparr>pq := pq1\<rparr>)"
  obtain sel where sel: "out st1 = out st @ [sel]" "step_of sel SelectNode (Some c) (st\<lparr>pq := pq1\<rparr>)"
    using dijkstra_select_out[of s t c "st\<lparr>pq := pq1\<rparr>"] by (auto simp: st1_def)
  have "pred_ok st" by (rule reach_pred_ok[OF i(2) assms(2)])
  then have "pred_ok st1" by (simp add: st1_def pred_ok_def)
  from dijkstra_target_effect[OF this, of g s c] obtain p st' pf where
    t: "dijkstra_target g s c st1 = Some st'" "out st' = out st1 @ [pf]"
      "reconstructPath (predecessors st1) c = Some p" "stype pf = PathFound"
      "shortestPath pf = Some p" "totalDistance pf = Some (num_get (distances st1) c)"
      "distances pf = distances st1" "predecessors pf = predecessors st1"
      "visited pf = set_add c (visited st1)" by blast
  have s1: "distances st1 = distances st" "predecessors st1 = predecessors st" "visited st1 = visited st"
    by (simp_all add: st1_def)
  have cin: "c \<in> ids" using dequeue_Some(2)[OF ne dq] i(1) by blast
  have 1: "reach h g t (ds0, ps0, vs0, ids0, os0) (distances st, predecessors st, visited st, ids, out st @ [sel])"
    using reach.yield[OF i(2), of sel] sel(2) by (simp add: step_of_def)
  have 2: "reach h g t (ds0, ps0, vs0, ids0, os0) (distances st, predecessors st, set_add c (visited st), ids, out st @ [sel])"
    by (rule reach.visit[OF 1 cin nv])
  have 3: "reach h g t (ds0, ps0, vs0, ids0, os0) (distances st, predecessors st, set_add c (visited st), ids,
             (out st @ [sel]) @ [pf])"
    using reach.found[OF 2 tc[symmetric] cin t(3)[unfolded s1], of pf] t(4,5,6,7,8,9)
    by (simp add: s1)
  show "\<exists>steps ds ps vs ids. map_option out (dijkstra_target g s c (dijkstra_select s t c (st\<lparr>pq := pq1\<rparr>))) = Some steps \<and>
           reach h g t (ds0, ps0, vs0, ids0, os0) (ds, ps, vs, ids, steps)"
    unfolding st1_def[symmetric] t(1) using 3 t(2) sel(1) by auto
qed

subsection \<open>The heuristic engine\<close>

lemma astar_select_effect:
  assumes "astar_select g hr tn s t c st = (st', r)"
  shows "distances st' = distances st" "predecessors st' = predecessors st" "visited st' = visited st"
    "pq st' = pq st"
    "r = None \<Longrightarrow> \<exists>sel. out st' = out st @ [sel] \<and> step_of sel SelectNode (Some c) st"
    "r \<noteq> None \<Longrightarrow> out st' = out st"
  using assms
  by (auto simp: astar_select_def Let_def step_of_def split: sum.splits if_splits)

lemma astar_target_effect:
  assumes "pred_ok st"
  shows "\<exists>p st' pf. astar_target g s t st = Some st' \<and> out st' = out st @ [pf] \<and>
           reconstructPath (predecessors st) t = Some p \<and>
           stype pf = PathFound \<and> currentNode pf = Some t \<and> shortestPath pf = Some p \<and>
           totalDistance pf = Some (num_get (distances st) t) \<and> distances pf = distances st \<and>
           predecessors pf = predecessors st \<and> visited pf = visited st"
proof -
  from reconstructPath_total[OF assms, of t] obtain p where
    p: "reconstructPath (predecessors st) t = Some p" by blast
  show ?thesis using p by (simp add: astar_target_def Let_def)
qed

lemma astar_visit_sim:
  assumes "reach h g (Some t) A0 (distances st, predecessors st, visited st, ids, out st)"
    "fst ` set (pq st) \<subseteq> ids" "c \<in> ids" "c \<notin> set (visited st)"
    "astar_visit h g hr tn s t c st = (st', r)"
  shows "(r = None \<longrightarrow> sim h g (Some t) A0 st') \<and> sim_out h g (Some t) A0 (out st')"
proof -
  define st1 where "st1 = st\<lparr>visited := set_add c (visited st)\<rparr>"
  define st2 where "st2 = (if c \<noteq> s then st1\<lparr>nodeStates := AList.update c NVisited (nodeStates st1)\<rparr> else st1)"
  obtain st3 r3 where n: "astar_neighbors g hr tn t c (getNeighbors h g c) st2 = (st3, r3)"
    by (cases "astar_neighbors g hr tn t c (getNeighbors h g c) st2")
  have s2: "visited st2 = set_add c (visited st)" "distances st2 = distances st" "pq st2 = pq st"
    "predecessors st2 = predecessors st" "out st2 = out st"
    by (simp_all add: st2_def st1_def)
  have v: "astar_visit h g hr tn s t c st = (case (st3, r3) of
            (st3, Some e) \<Rightarrow> (st3, Some e)
          | (st3, None) \<Rightarrow> (st3\<lparr>edgeStates := reset_relaxed (edgeStates st3)\<rparr>, None))"
    unfolding astar_visit_def Let_def st1_def[symmetric] st2_def[symmetric] n ..
  have "reach h g (Some t) A0 (distances st, predecessors st, set_add c (visited st), ids, out st)"
    by (rule reach.visit[OF assms(1,3,4)])
  then have "sim h g (Some t) A0 st2" using assms(2) by (intro simI[where ids = ids]) (simp_all add: s2)
  moreover have "c \<in> set (visited st2)" by (simp add: s2 set_add_def)
  ultimately have 3: "(r3 = None \<longrightarrow> sim h g (Some t) A0 st3) \<and> sim_out h g (Some t) A0 (out st3)"
    using n by (intro astar_neighbors_sim[where st = st2 and nbs = "getNeighbors h g c"]) simp_all
  show ?thesis
  proof (cases r3)
    case None
    then have st': "st' = st3\<lparr>edgeStates := reset_relaxed (edgeStates st3)\<rparr>" "r = None"
      using assms(5) unfolding v by simp_all
    have "sim h g (Some t) A0 st3" using 3 None by blast
    then have "sim h g (Some t) A0 st'" unfolding st' by (simp add: sim_def)
    then show ?thesis by (simp add: sim_sim_out)
  next
    case (Some e)
    then have "st' = st3" "r = Some e" using assms(5) unfolding v by simp_all
    then show ?thesis using 3 by simp
  qed
qed

text \<open>A run returns, and its steps are those of a state within \<open>reach\<close>.\<close>

definition run_ok :: "store \<Rightarrow> graph \<Rightarrow> string option \<Rightarrow> trace_state \<Rightarrow> (step list \<times> error option) option \<Rightarrow> bool" where
  "run_ok h g t A0 r = (\<exists>steps err. r = Some (steps, err) \<and> sim_out h g t A0 steps)"

lemma run_okI: "sim_out h g t A0 os \<Longrightarrow> run_ok h g t A0 (Some (os, e))"
  by (simp add: run_ok_def)

lemma astar_select_sim:
  assumes "sim h g (Some t) A0 st" "\<not> isEmpty (pq st)" "dequeue (pq st) = (Some c, pq1)"
    "astar_select g hr tn s t c (st\<lparr>pq := pq1, inOpenSet := set_delete c (inOpenSet st)\<rparr>) = (st2, None)"
  obtains ids where "reach h g (Some t) A0 (distances st2, predecessors st2, visited st2, ids, out st2)"
    "fst ` set (pq st2) \<subseteq> ids" "c \<in> ids" "visited st2 = visited st" "predecessors st2 = predecessors st"
    "distances st2 = distances st"
proof -
  from assms(1) obtain ids where i: "fst ` set (pq st) \<subseteq> ids"
    "reach h g (Some t) A0 (distances st, predecessors st, visited st, ids, out st)"
    by (rule sim_reachD)
  note ef = astar_select_effect[OF assms(4)]
  have s2: "distances st2 = distances st" "predecessors st2 = predecessors st" "visited st2 = visited st"
    "pq st2 = pq1"
    using ef(1,2,3,4) by simp_all
  from ef(5)[OF refl] obtain sl where sl0:
    "out st2 = out (st\<lparr>pq := pq1, inOpenSet := set_delete c (inOpenSet st)\<rparr>) @ [sl]"
    "step_of sl SelectNode (Some c) (st\<lparr>pq := pq1, inOpenSet := set_delete c (inOpenSet st)\<rparr>)"
    by (elim exE conjE)
  have sl: "out st2 = out st @ [sl]" "distances sl = distances st" "predecessors sl = predecessors st"
    "visited sl = visited st" "stype sl \<noteq> PathFound"
    using sl0 by (simp_all add: step_of_def)
  have "reach h g (Some t) A0 (distances st, predecessors st, visited st, ids, out st @ [sl])"
    by (rule reach.yield[OF i(2) sl(2,3,4,5)])
  then have 1: "reach h g (Some t) A0 (distances st2, predecessors st2, visited st2, ids, out st2)"
    by (simp only: s2 sl(1))
  have 2: "fst ` set (pq st2) \<subseteq> ids" using dequeue_Some(3)[OF assms(2,3)] i(1) s2(4) by blast
  have 3: "c \<in> ids" using dequeue_Some(2)[OF assms(2,3)] i(1) by blast
  show thesis by (rule that[OF 1 2 3 s2(3) s2(2) s2(1)])
qed

lemma astar_loop_sim:
  assumes "sim h g (Some t) (ds0, ps0, vs0, ids0, os0) st0" "pred_order ps0 vs0"
  shows "run_ok h g (Some t) (ds0, ps0, vs0, ids0, os0) (astar_loop h g hr tn s t st0)"
proof (rule astar_loop_rule[where I = "sim h g (Some t) (ds0, ps0, vs0, ids0, os0)"
        and Q = "run_ok h g (Some t) (ds0, ps0, vs0, ids0, os0)"])
  show "sim h g (Some t) (ds0, ps0, vs0, ids0, os0) st0" by fact
next
  fix st :: astate and c pq1
  assume I: "sim h g (Some t) (ds0, ps0, vs0, ids0, os0) st" and ne: "\<not> isEmpty (pq st)"
    and dq: "dequeue (pq st) = (Some c, pq1)"
  from I obtain ids where i: "fst ` set (pq st) \<subseteq> ids"
    "reach h g (Some t) (ds0, ps0, vs0, ids0, os0) (distances st, predecessors st, visited st, ids, out st)"
    by (rule sim_reachD)
  have "fst ` set pq1 \<subseteq> ids" using dequeue_Some(3)[OF ne dq] i(1) by blast
  then show "sim h g (Some t) (ds0, ps0, vs0, ids0, os0) (st\<lparr>pq := pq1, inOpenSet := set_delete c (inOpenSet st)\<rparr>)"
    using i(2) by (intro simI[where ids = ids]) simp_all
next
  fix st :: astate
  assume I: "sim h g (Some t) (ds0, ps0, vs0, ids0, os0) st"
  from I obtain ids where i: "fst ` set (pq st) \<subseteq> ids"
    "reach h g (Some t) (ds0, ps0, vs0, ids0, os0) (distances st, predecessors st, visited st, ids, out st)"
    by (rule sim_reachD)
  have "reach h g (Some t) (ds0, ps0, vs0, ids0, os0) (distances st, predecessors st, visited st, ids,
          out st @ [astar_no_path_step s t st])"
    by (rule reach.yield[OF i(2)]) simp_all
  then have "sim_out h g (Some t) (ds0, ps0, vs0, ids0, os0) (out st @ [astar_no_path_step s t st])"
    unfolding sim_out_def by (intro exI)
  then have "sim_out h g (Some t) (ds0, ps0, vs0, ids0, os0) (out (emit (astar_no_path_step s t st) st))"
    by (simp only: emit_simps)
  then show "run_ok h g (Some t) (ds0, ps0, vs0, ids0, os0) (Some (out (emit (astar_no_path_step s t st) st), None))"
    by (rule run_okI)
next
  fix st :: astate and c pq1 st2 e
  assume I: "sim h g (Some t) (ds0, ps0, vs0, ids0, os0) st"
    and sel: "astar_select g hr tn s t c (st\<lparr>pq := pq1, inOpenSet := set_delete c (inOpenSet st)\<rparr>) = (st2, Some e)"
  have "out st2 = out st" using astar_select_effect(6)[OF sel] by simp
  then have "sim_out h g (Some t) (ds0, ps0, vs0, ids0, os0) (out st2)" using sim_sim_out[OF I] by simp
  then show "run_ok h g (Some t) (ds0, ps0, vs0, ids0, os0) (Some (out st2, Some e))" by (rule run_okI)
next
  fix st :: astate and c pq1 st2
  assume I: "sim h g (Some t) (ds0, ps0, vs0, ids0, os0) st" and ne: "\<not> isEmpty (pq st)"
    and dq: "dequeue (pq st) = (Some c, pq1)" and nv: "c \<notin> set (visited st)"
    and sel: "astar_select g hr tn s t c (st\<lparr>pq := pq1, inOpenSet := set_delete c (inOpenSet st)\<rparr>) = (st2, None)"
    and ct: "c = t"
  show "run_ok h g (Some t) (ds0, ps0, vs0, ids0, os0) (map_option (\<lambda>s. (out s, None)) (astar_target g s t st2))"
  proof (rule astar_select_sim[OF I ne dq sel])
    fix ids
    assume 1: "reach h g (Some t) (ds0, ps0, vs0, ids0, os0) (distances st2, predecessors st2, visited st2, ids, out st2)"
      and tin: "c \<in> ids"
    have "pred_ok st2" by (rule reach_pred_ok[OF 1 assms(2)])
    from astar_target_effect[OF this, of g s t] obtain p st' pf where
      tg: "astar_target g s t st2 = Some st'" "out st' = out st2 @ [pf]"
        "reconstructPath (predecessors st2) t = Some p" "stype pf = PathFound"
        "shortestPath pf = Some p" "totalDistance pf = Some (num_get (distances st2) t)"
        "distances pf = distances st2" "predecessors pf = predecessors st2"
        "visited pf = visited st2" by (elim exE conjE)
    have "reach h g (Some t) (ds0, ps0, vs0, ids0, os0) (distances st2, predecessors st2, visited st2, ids,
               out st2 @ [pf])"
      by (rule reach.found[OF 1 refl tin[unfolded ct] tg(3) tg(7,8,9,4,5,6)])
    then have "sim_out h g (Some t) (ds0, ps0, vs0, ids0, os0) (out st')"
      unfolding sim_out_def tg(2) by (intro exI)
    then have "run_ok h g (Some t) (ds0, ps0, vs0, ids0, os0) (Some (out st', None))" by (rule run_okI)
    then show ?thesis unfolding tg(1) by simp
  qed
next
  fix st :: astate and c pq1 st2 st3 e
  assume I: "sim h g (Some t) (ds0, ps0, vs0, ids0, os0) st" and ne: "\<not> isEmpty (pq st)"
    and dq: "dequeue (pq st) = (Some c, pq1)" and nv: "c \<notin> set (visited st)"
    and sel: "astar_select g hr tn s t c (st\<lparr>pq := pq1, inOpenSet := set_delete c (inOpenSet st)\<rparr>) = (st2, None)"
    and vis: "astar_visit h g hr tn s t c st2 = (st3, Some e)"
  show "run_ok h g (Some t) (ds0, ps0, vs0, ids0, os0) (Some (out st3, Some e))"
  proof (rule astar_select_sim[OF I ne dq sel])
    fix ids
    assume 1: "reach h g (Some t) (ds0, ps0, vs0, ids0, os0) (distances st2, predecessors st2, visited st2, ids, out st2)"
      and 2: "fst ` set (pq st2) \<subseteq> ids" and 3: "c \<in> ids" and 4: "visited st2 = visited st"
    have nv2: "c \<notin> set (visited st2)" using nv 4 by simp
    from astar_visit_sim[OF 1 2 3 nv2 vis]
    have "sim_out h g (Some t) (ds0, ps0, vs0, ids0, os0) (out st3)" by simp
    then show ?thesis by (rule run_okI)
  qed
next
  fix st :: astate and c pq1 st2 st3
  assume I: "sim h g (Some t) (ds0, ps0, vs0, ids0, os0) st" and ne: "\<not> isEmpty (pq st)"
    and dq: "dequeue (pq st) = (Some c, pq1)" and nv: "c \<notin> set (visited st)"
    and sel: "astar_select g hr tn s t c (st\<lparr>pq := pq1, inOpenSet := set_delete c (inOpenSet st)\<rparr>) = (st2, None)"
    and vis: "astar_visit h g hr tn s t c st2 = (st3, None)"
  show "sim h g (Some t) (ds0, ps0, vs0, ids0, os0) st3"
  proof (rule astar_select_sim[OF I ne dq sel])
    fix ids
    assume 1: "reach h g (Some t) (ds0, ps0, vs0, ids0, os0) (distances st2, predecessors st2, visited st2, ids, out st2)"
      and 2: "fst ` set (pq st2) \<subseteq> ids" and 3: "c \<in> ids" and 4: "visited st2 = visited st"
    have nv2: "c \<notin> set (visited st2)" using nv 4 by simp
    from astar_visit_sim[OF 1 2 3 nv2 vis] show ?thesis by simp
  qed
qed

section \<open>The snapshots of a run\<close>

lemma sim_out_sorted:
  assumes "sim_out h g t A0 steps" "mono_trace A0"
  shows "sorted_wrt step_le steps"
proof -
  from assms(1) obtain ds ps vs ids where "reach h g t A0 (ds, ps, vs, ids, steps)"
    unfolding sim_out_def by blast
  from reach_mono_trace[OF this assms(2)] show ?thesis by (simp add: mono_trace_def)
qed

lemma proper_dijkstra_init: "proper (distances (dijkstra_init g s t))"
  by (auto simp: proper_def dijkstra_init_simps split: if_splits)

lemma proper_astar_init: "proper (distances (astar_init g s t hv))"
  by (auto simp: proper_def astar_init_simps split: if_splits)

lemma mono_trace_first:
  assumes "proper ds" "distances x = ds" "visited x = vs"
  shows "mono_trace (ds, ps, vs, ids, [x])"
  using assms by (simp add: mono_trace_def step_le_def dist_le_refl)

lemma pred_order_dijkstra_init: "pred_order (predecessors (dijkstra_init g s t)) []"
  by (simp add: pred_order_def dijkstra_init_simps)

lemma pred_order_astar_init: "pred_order (predecessors (astar_init g s t hv)) []"
  by (simp add: pred_order_def astar_init_simps)

text \<open>The state after the \<open>init\<close> step, from which the main loop starts.\<close>

definition dijkstra_start :: "graph \<Rightarrow> string \<Rightarrow> string option \<Rightarrow> trace_state" where
  "dijkstra_start g s t =
     (distances (dijkstra_init g s t), predecessors (dijkstra_init g s t), [], {s},
      [init_step s (dijkstra_init g s t)])"

definition astar_start :: "graph \<Rightarrow> string \<Rightarrow> string \<Rightarrow> jsnum \<Rightarrow> trace_state" where
  "astar_start g s t hv =
     (distances (astar_init g s t hv), predecessors (astar_init g s t hv), [], {s},
      [astar_init_step s t hv (astar_init g s t hv)])"

lemma sim_dijkstra_start:
  "sim h g t (dijkstra_start g s t) (emit (init_step s (dijkstra_init g s t)) (dijkstra_init g s t))"
  unfolding dijkstra_start_def
  by (rule simI[where ids = "{s}", OF _ reach.start]) (simp_all add: dijkstra_init_simps)

lemma sim_astar_start:
  "sim h g (Some t) (astar_start g s t hv) (emit (astar_init_step s t hv (astar_init g s t hv)) (astar_init g s t hv))"
  unfolding astar_start_def
  by (rule simI[where ids = "{s}", OF _ reach.start]) (simp_all add: astar_init_simps)

lemma mono_trace_dijkstra_start: "mono_trace (dijkstra_start g s t)"
  unfolding dijkstra_start_def
  by (rule mono_trace_first[OF proper_dijkstra_init]) (simp_all add: dijkstra_init_simps)

lemma mono_trace_astar_start: "mono_trace (astar_start g s t hv)"
  unfolding astar_start_def
  by (rule mono_trace_first[OF proper_astar_init]) (simp_all add: astar_init_simps)

lemma dijkstra_run_reach:
  "\<exists>steps. generateDijkstraSteps h g s t = Some steps \<and> sim_out h g t (dijkstra_start g s t) steps"
proof -
  from dijkstra_loop_sim[where h = h and g = g and s = s and t = t,
      OF sim_dijkstra_start[of h g t s, unfolded dijkstra_start_def] pred_order_dijkstra_init[of g s t]]
  show ?thesis unfolding sim_out_def generateDijkstraSteps_def Let_def dijkstra_start_def by blast
qed

lemma astar_run_reach:
  "\<exists>steps err. generateAStarSteps h g s t hr = Some (steps, err) \<and>
      (steps = [] \<or> (\<exists>hv. sim_out h g (Some t) (astar_start g s t hv) steps))"
proof (cases "map_of (nodes g) t")
  case None
  then show ?thesis by (simp add: generateAStarSteps_def)
next
  case (Some tn)
  show ?thesis
  proof (cases "hr (map_of (nodes g) s) (Some tn)")
    case (Inl e)
    then show ?thesis using Some by (simp add: generateAStarSteps_def)
  next
    case (Inr hv)
    show ?thesis
    proof (cases "hv = Undefined")
      case True
      then show ?thesis using Some Inr by (simp add: generateAStarSteps_def)
    next
      case False
      from astar_loop_sim[where h = h and g = g and t = t and s = s and hr = hr and tn = tn,
          OF sim_astar_start[of h g t s hv, unfolded astar_start_def] pred_order_astar_init[of g s t hv]]
      obtain steps err where r: "astar_loop h g hr tn s t
           (emit (astar_init_step s t hv (astar_init g s t hv)) (astar_init g s t hv)) = Some (steps, err)"
        "sim_out h g (Some t) (astar_start g s t hv) steps"
        unfolding run_ok_def astar_start_def by blast
      have "generateAStarSteps h g s t hr = Some (steps, err)"
        using Some Inr False r(1) by (simp add: generateAStarSteps_def Let_def)
      then show ?thesis using r(2) by blast
    qed
  qed
qed

text \<open>C10: each engine returns, and in the steps it returns (for the heuristic engine also
  when it throws: the steps yielded before) a step and any later step \<open>x\<close> and \<open>y\<close> are
  related by \<open>step_le\<close>: every node visited in \<open>x\<close> is visited in \<open>y\<close>, and every node
  that has a distance in \<open>x\<close> has one in \<open>y\<close> that is less than or equal to it.\<close>

theorem snapshots_monotone:
  "(\<exists>steps. generateDijkstraSteps h g sourceId targetId = Some steps \<and> sorted_wrt step_le steps) \<and>
   (\<exists>steps err. generateAStarSteps h g sourceId target heuristic = Some (steps, err) \<and>
       sorted_wrt step_le steps)"
proof
  from dijkstra_run_reach[of h g sourceId targetId]
  obtain steps where s: "generateDijkstraSteps h g sourceId targetId = Some steps"
    "sim_out h g targetId (dijkstra_start g sourceId targetId) steps"
    by (elim exE conjE)
  from sim_out_sorted[OF s(2) mono_trace_dijkstra_start] s(1)
  show "\<exists>steps. generateDijkstraSteps h g sourceId targetId = Some steps \<and> sorted_wrt step_le steps"
    by blast
next
  from astar_run_reach[of h g sourceId target heuristic] obtain steps err where
    s: "generateAStarSteps h g sourceId target heuristic = Some (steps, err)"
    "steps = [] \<or> (\<exists>hv. sim_out h g (Some target) (astar_start g sourceId target hv) steps)" by blast
  have "sorted_wrt step_le steps"
    using s(2) sim_out_sorted[OF _ mono_trace_astar_start] by auto
  then show "\<exists>steps err. generateAStarSteps h g sourceId target heuristic = Some (steps, err) \<and>
       sorted_wrt step_le steps" using s(1) by blast
qed

lemma step_leD:
  assumes "step_le x y"
  shows "a \<in> set (visited x) \<Longrightarrow> a \<in> set (visited y)"
    and "map_of (distances x) k = Some v \<Longrightarrow> \<exists>v'. map_of (distances y) k = Some v' \<and> js_le v' v"
  using assms unfolding step_le_def dist_le_def by blast+

lemma run_triangle_dijkstra:
  "map_option (map (\<lambda>s. (visited s, distances s)))
     (generateDijkstraSteps (fst triangle) (snd triangle) ''S'' None)
   = Some [([], [(''S'', Num 0), (''A'', PosInf), (''B'', PosInf)]),
           ([], [(''S'', Num 0), (''A'', PosInf), (''B'', PosInf)]),
           ([''S''], [(''S'', Num 0), (''A'', PosInf), (''B'', PosInf)]),
           ([''S''], [(''S'', Num 0), (''A'', PosInf), (''B'', PosInf)]),
           ([''S''], [(''S'', Num 0), (''A'', Num 1), (''B'', PosInf)]),
           ([''S''], [(''S'', Num 0), (''A'', Num 1), (''B'', PosInf)]),
           ([''S''], [(''S'', Num 0), (''A'', Num 1), (''B'', Num 10)]),
           ([''S''], [(''S'', Num 0), (''A'', Num 1), (''B'', Num 10)]),
           ([''S'', ''A''], [(''S'', Num 0), (''A'', Num 1), (''B'', Num 10)]),
           ([''S'', ''A''], [(''S'', Num 0), (''A'', Num 1), (''B'', Num 10)]),
           ([''S'', ''A''], [(''S'', Num 0), (''A'', Num 1), (''B'', Num 2)]),
           ([''S'', ''A''], [(''S'', Num 0), (''A'', Num 1), (''B'', Num 2)]),
           ([''S'', ''A'', ''B''], [(''S'', Num 0), (''A'', Num 1), (''B'', Num 2)]),
           ([''S'', ''A'', ''B''], [(''S'', Num 0), (''A'', Num 1), (''B'', Num 2)])]"
  unfolding triangle_def by code_simp

lemma run_triangle_astar:
  "map_option (\<lambda>r. (map (\<lambda>s. (visited s, distances s)) (fst r), snd r))
     (generateAStarSteps (fst triangle) (snd triangle) ''S'' ''B'' manhattanDistance)
   = Some ([([], [(''S'', Num 0), (''A'', PosInf), (''B'', PosInf)]),
            ([], [(''S'', Num 0), (''A'', PosInf), (''B'', PosInf)]),
            ([''S''], [(''S'', Num 0), (''A'', PosInf), (''B'', PosInf)]),
            ([''S''], [(''S'', Num 0), (''A'', Num 1), (''B'', PosInf)]),
            ([''S''], [(''S'', Num 0), (''A'', Num 1), (''B'', PosInf)]),
            ([''S''], [(''S'', Num 0), (''A'', Num 1), (''B'', Num 10)]),
            ([''S''], [(''S'', Num 0), (''A'', Num 1), (''B'', Num 10)]),
            ([''S'', ''A''], [(''S'', Num 0), (''A'', Num 1), (''B'', Num 10)]),
            ([''S'', ''A''], [(''S'', Num 0), (''A'', Num 1), (''B'', Num 2)]),
            ([''S'', ''A''], [(''S'', Num 0), (''A'', Num 1), (''B'', Num 2)]),
            ([''S'', ''A''], [(''S'', Num 0), (''A'', Num 1), (''B'', Num 2)])], None)"
  unfolding triangle_def by code_simp

lemma nth_snapshot:
  assumes "map f steps = xs" "i < length xs"
  shows "f (steps ! i) = xs ! i" "i < length steps"
proof -
  have l: "length steps = length xs" unfolding assms(1)[symmetric] by simp
  show 2: "i < length steps" using assms(2) l by simp
  show "f (steps ! i) = xs ! i" unfolding assms(1)[symmetric] using 2 by simp
qed

theorem snapshots_monotone_witness:
  "(\<exists>steps. generateDijkstraSteps (fst triangle) (snd triangle) ''S'' None = Some steps \<and>
      ''S'' \<in> set (visited (steps ! 2)) \<and> ''S'' \<in> set (visited (steps ! 13)) \<and>
      map_of (distances (steps ! 6)) ''B'' = Some (Num 10) \<and>
      (\<exists>v'. map_of (distances (steps ! 13)) ''B'' = Some v' \<and> js_le v' (Num 10))) \<and>
   (\<exists>steps err. generateAStarSteps (fst triangle) (snd triangle) ''S'' ''B'' manhattanDistance = Some (steps, err) \<and>
      ''S'' \<in> set (visited (steps ! 2)) \<and> ''S'' \<in> set (visited (steps ! 10)) \<and>
      map_of (distances (steps ! 5)) ''B'' = Some (Num 10) \<and>
      (\<exists>v'. map_of (distances (steps ! 10)) ''B'' = Some v' \<and> js_le v' (Num 10)))"
proof -
  note m = snapshots_monotone[of "fst triangle" "snd triangle" "''S''" None "''B''" manhattanDistance]
  from m obtain ds where d: "generateDijkstraSteps (fst triangle) (snd triangle) ''S'' None = Some ds"
    "sorted_wrt step_le ds" by (elim conjE exE)
  from m obtain as err where a:
    "generateAStarSteps (fst triangle) (snd triangle) ''S'' ''B'' manhattanDistance = Some (as, err)"
    "sorted_wrt step_le as" by (elim conjE exE)
  have dm: "map (\<lambda>s. (visited s, distances s)) ds = the (map_option (map (\<lambda>s. (visited s, distances s)))
     (generateDijkstraSteps (fst triangle) (snd triangle) ''S'' None))"
    by (simp only: d(1) option.map option.sel)
  have am: "map (\<lambda>s. (visited s, distances s)) as = fst (the (map_option (\<lambda>r. (map (\<lambda>s. (visited s, distances s)) (fst r), snd r))
     (generateAStarSteps (fst triangle) (snd triangle) ''S'' ''B'' manhattanDistance)))"
    by (simp only: a(1) option.map option.sel fst_conv)
  note dn = nth_snapshot[OF dm[unfolded run_triangle_dijkstra option.sel]]
  note an = nth_snapshot[OF am[unfolded run_triangle_astar option.sel fst_conv]]
  have d13: "13 < length ds" by (rule dn(2)) simp
  have "(visited (ds ! 2), distances (ds ! 2)) = ([''S''], [(''S'', Num 0), (''A'', PosInf), (''B'', PosInf)])"
    by (subst dn(1)) simp_all
  then have d2: "''S'' \<in> set (visited (ds ! 2))" by simp
  have "(visited (ds ! 6), distances (ds ! 6)) = ([''S''], [(''S'', Num 0), (''A'', Num 1), (''B'', Num 10)])"
    by (subst dn(1)) simp_all
  then have d6: "map_of (distances (ds ! 6)) ''B'' = Some (Num 10)" by simp
  have dle: "step_le (ds ! 2) (ds ! 13)" "step_le (ds ! 6) (ds ! 13)"
    by (rule sorted_wrt_nth_less[OF d(2) _ d13], simp)+
  have a10: "10 < length as" by (rule an(2)) simp
  have "(visited (as ! 2), distances (as ! 2)) = ([''S''], [(''S'', Num 0), (''A'', PosInf), (''B'', PosInf)])"
    by (subst an(1)) simp_all
  then have a2: "''S'' \<in> set (visited (as ! 2))" by simp
  have "(visited (as ! 5), distances (as ! 5)) = ([''S''], [(''S'', Num 0), (''A'', Num 1), (''B'', Num 10)])"
    by (subst an(1)) simp_all
  then have a5: "map_of (distances (as ! 5)) ''B'' = Some (Num 10)" by simp
  have ale: "step_le (as ! 2) (as ! 10)" "step_le (as ! 5) (as ! 10)"
    by (rule sorted_wrt_nth_less[OF a(2) _ a10], simp)+
  have 1: "\<exists>steps. generateDijkstraSteps (fst triangle) (snd triangle) ''S'' None = Some steps \<and>
      ''S'' \<in> set (visited (steps ! 2)) \<and> ''S'' \<in> set (visited (steps ! 13)) \<and>
      map_of (distances (steps ! 6)) ''B'' = Some (Num 10) \<and>
      (\<exists>v'. map_of (distances (steps ! 13)) ''B'' = Some v' \<and> js_le v' (Num 10))"
    by (intro exI[of _ ds] conjI d(1) d2 d6 step_leD(1)[OF dle(1) d2] step_leD(2)[OF dle(2) d6])
  have 2: "\<exists>steps err. generateAStarSteps (fst triangle) (snd triangle) ''S'' ''B'' manhattanDistance = Some (steps, err) \<and>
      ''S'' \<in> set (visited (steps ! 2)) \<and> ''S'' \<in> set (visited (steps ! 10)) \<and>
      map_of (distances (steps ! 5)) ''B'' = Some (Num 10) \<and>
      (\<exists>v'. map_of (distances (steps ! 10)) ''B'' = Some v' \<and> js_le v' (Num 10))"
    by (intro exI[of _ as] exI[of _ err] conjI a(1) a2 a5 step_leD(1)[OF ale(1) a2] step_leD(2)[OF ale(2) a5])
  show ?thesis by (intro conjI 1 2)
qed

section \<open>The path and the cost of a \<open>path-found\<close> step\<close>

text \<open>The edge stored under the id \<open>k\<close> leads from \<open>a\<close> to \<open>b\<close>: it has them as source
  and target, or, in an undirected graph, as target and source.\<close>

definition edge_joins :: "graph \<Rightarrow> string \<Rightarrow> string \<Rightarrow> string \<Rightarrow> bool" where
  "edge_joins g k a b =
     (case map_of (edges g) k of
        None \<Rightarrow> False
      | Some e \<Rightarrow> (e_source e = a \<and> e_target e = b) \<or> (\<not> directed g \<and> e_target e = a \<and> e_source e = b))"

text \<open>The edges with the ids \<open>ks\<close> join the consecutive nodes of a path, one each.\<close>

fun joined :: "graph \<Rightarrow> string list \<Rightarrow> string list \<Rightarrow> bool" where
  "joined g (a # b # rest) (k # ks) = (edge_joins g k a b \<and> joined g (b # rest) ks)"
| "joined g [a] [] = True"
| "joined g p ks = False"

definition weight_of :: "graph \<Rightarrow> string \<Rightarrow> jsnum" where
  "weight_of g k = (case map_of (edges g) k of None \<Rightarrow> Undefined | Some e \<Rightarrow> Num (e_weight e))"

text \<open>The sum of the weights of the edges \<open>ks\<close>, added from 0 in the order of the path.\<close>

definition path_cost :: "graph \<Rightarrow> string list \<Rightarrow> jsnum" where
  "path_cost g ks = foldl js_add (Num 0) (map (weight_of g) ks)"

definition path_ok :: "graph \<Rightarrow> string \<Rightarrow> string \<Rightarrow> step \<Rightarrow> bool" where
  "path_ok g s t x =
     (\<exists>p ks. shortestPath x = Some p \<and> p \<noteq> [] \<and> hd p = s \<and> last p = t \<and> joined g p ks \<and>
             totalDistance x = Some (path_cost g ks))"

lemma neighbor_edge:
  assumes "(n, e, w) \<in> set (getNeighbors h g c)"
  shows "edge_joins g e c n" "weight_of g e = Num w"
proof -
  from assms obtain r where r: "map_of (adjacencyList g) c = Some r"
    "(n, e, w) \<in> set (List.map_filter (neighbor_of g c) (cells h r))"
    by (cases "map_of (adjacencyList g) c") (auto simp: getNeighbors_def)
  from r(2) obtain k where k: "neighbor_of g c k = Some (n, e, w)"
    by (auto simp: List.map_filter_def)
  then obtain ed where ed: "map_of (edges g) k = Some ed"
    by (auto simp: neighbor_of_def split: option.splits)
  from k ed have e: "e = k" "w = e_weight ed"
    "(e_source ed = c \<and> e_target ed = n) \<or> (\<not> directed g \<and> e_target ed = c \<and> e_source ed = n)"
    by (auto simp: neighbor_of_def split: if_splits)
  show "edge_joins g e c n" using e(3) ed by (simp add: edge_joins_def e(1))
  show "weight_of g e = Num w" using ed by (simp add: weight_of_def e(1,2))
qed

lemma joined_snoc:
  "q \<noteq> [] \<Longrightarrow> joined g q ks \<Longrightarrow> edge_joins g k (last q) v \<Longrightarrow> joined g (q @ [v]) (ks @ [k])"
proof (induction g q ks rule: joined.induct)
  case (1 g a b rest k' ks)
  then show ?case by simp
next
  case (2 g a)
  then show ?case by simp
qed simp_all

text \<open>What the predecessor links record: the predecessor of a node is visited, and the
  distance of the node is that of its predecessor plus the weight of an edge that leads
  from the predecessor to the node.\<close>

definition links_ok :: "store \<Rightarrow> graph \<Rightarrow> (string \<times> jsnum) list \<Rightarrow> (string \<times> string option) list \<Rightarrow> string list \<Rightarrow> bool" where
  "links_ok h g ds ps vs =
     (\<forall>v c. map_of ps v = Some (Some c) \<longrightarrow>
        c \<in> set vs \<and> (\<exists>e w. (v, e, w) \<in> set (getNeighbors h g c) \<and>
                          num_get ds v = js_add (num_get ds c) (Num w)))"

lemma links_okD:
  assumes "links_ok h g ds ps vs" "map_of ps v = Some (Some c)"
  shows "c \<in> set vs"
    and "\<exists>e w. (v, e, w) \<in> set (getNeighbors h g c) \<and> num_get ds v = js_add (num_get ds c) (Num w)"
  using assms unfolding links_ok_def by blast+

lemma follows_cost:
  assumes "links_ok h g ds ps vs"
  shows "p \<noteq> [] \<Longrightarrow> follows ps p \<Longrightarrow>
           \<exists>ks. joined g p ks \<and> num_get ds (last p) = foldl js_add (num_get ds (hd p)) (map (weight_of g) ks)"
proof (induction p rule: rev_induct)
  case Nil
  then show ?case by simp
next
  case (snoc v q)
  show ?case
  proof (cases "q = []")
    case True
    have "joined g [v] [] \<and> num_get ds v = foldl js_add (num_get ds v) (map (weight_of g) [])" by simp
    then show ?thesis unfolding True by (intro exI[of _ "[]"]) simp
  next
    case False
    from snoc.prems(2) False have f: "follows ps q" "map_of ps v = Some (Some (last q))"
      by (simp_all add: follows_snoc)
    from snoc.IH[OF False f(1)] obtain ks where ks: "joined g q ks"
      "num_get ds (last q) = foldl js_add (num_get ds (hd q)) (map (weight_of g) ks)" by blast
    from links_okD(2)[OF assms f(2)] obtain e w where ew: "(v, e, w) \<in> set (getNeighbors h g (last q))"
      "num_get ds v = js_add (num_get ds (last q)) (Num w)" by blast
    note ne = neighbor_edge[OF ew(1)]
    have 1: "joined g (q @ [v]) (ks @ [e])" by (rule joined_snoc[OF False ks(1) ne(1)])
    have 2: "num_get ds (last (q @ [v])) = foldl js_add (num_get ds (hd (q @ [v]))) (map (weight_of g) (ks @ [e]))"
      using False by (simp add: ew(2) ks(2) ne(2))
    show ?thesis by (intro exI[of _ "ks @ [e]"] conjI 1 2)
  qed
qed

lemma follows_ids:
  assumes "links_ok h g ds ps vs" "set vs \<subseteq> ids"
  shows "p \<noteq> [] \<Longrightarrow> follows ps p \<Longrightarrow> last p \<in> ids \<Longrightarrow> hd p \<in> ids"
proof (induction p rule: rev_induct)
  case Nil
  then show ?case by simp
next
  case (snoc v q)
  show ?case
  proof (cases "q = []")
    case True
    then show ?thesis using snoc.prems(3) by simp
  next
    case False
    from snoc.prems(2) False have f: "follows ps q" "map_of ps v = Some (Some (last q))"
      by (simp_all add: follows_snoc)
    have "last q \<in> ids" using links_okD(1)[OF assms(1) f(2)] assms(2) by blast
    from snoc.IH[OF False f(1) this] show ?thesis using False by simp
  qed
qed

text \<open>What holds of the states within \<open>reach\<close> when the source has the distance 0 and is
  the only id in the queue at the start.\<close>

definition path_inv :: "store \<Rightarrow> graph \<Rightarrow> string \<Rightarrow> string option \<Rightarrow> trace_state \<Rightarrow> bool" where
  "path_inv h g s t A = (case A of (ds, ps, vs, ids, os) \<Rightarrow>
     pred_order ps vs \<and> set vs \<subseteq> ids \<and> (vs = [] \<longrightarrow> ids = {s}) \<and> (vs \<noteq> [] \<longrightarrow> s \<in> set vs) \<and>
     root ps s \<and> num_get ds s = Num 0 \<and> links_ok h g ds ps vs \<and>
     (\<forall>v\<in>ids. v \<noteq> s \<longrightarrow> (\<exists>c. map_of ps v = Some (Some c))) \<and>
     (\<forall>x\<in>set os. stype x = PathFound \<longrightarrow> (\<exists>tv. t = Some tv \<and> path_ok g s tv x)))"

lemma path_invD:
  assumes "path_inv h g s t (ds, ps, vs, ids, os)"
  shows "pred_order ps vs" "set vs \<subseteq> ids" "vs = [] \<Longrightarrow> ids = {s}" "vs \<noteq> [] \<Longrightarrow> s \<in> set vs"
    "root ps s" "num_get ds s = Num 0" "links_ok h g ds ps vs"
    "\<And>v. v \<in> ids \<Longrightarrow> v \<noteq> s \<Longrightarrow> \<exists>c. map_of ps v = Some (Some c)"
    "\<And>x. x \<in> set os \<Longrightarrow> stype x = PathFound \<Longrightarrow> \<exists>tv. t = Some tv \<and> path_ok g s tv x"
  using assms unfolding path_inv_def by simp_all

lemma path_invI:
  assumes "pred_order ps vs" "set vs \<subseteq> ids" "vs = [] \<Longrightarrow> ids = {s}" "vs \<noteq> [] \<Longrightarrow> s \<in> set vs"
    "root ps s" "num_get ds s = Num 0" "links_ok h g ds ps vs"
    "\<And>v. v \<in> ids \<Longrightarrow> v \<noteq> s \<Longrightarrow> \<exists>c. map_of ps v = Some (Some c)"
    "\<And>x. x \<in> set os \<Longrightarrow> stype x = PathFound \<Longrightarrow> \<exists>tv. t = Some tv \<and> path_ok g s tv x"
  shows "path_inv h g s t (ds, ps, vs, ids, os)"
  using assms unfolding path_inv_def by simp

lemma num_get_update: "num_get (AList.update k v m) k' = (if k' = k then v else num_get m k')"
  by (simp add: num_get_def update_conv')

lemma reach_path_inv:
  assumes "reach h g t A0 A" "path_inv h g s t A0"
  shows "path_inv h g s t A"
  using assms
proof (induction rule: reach.induct)
  case start
  then show ?case by simp
next
  case (yield ds ps vs ids os x)
  note I = path_invD[OF yield.IH[OF yield.prems]]
  show ?case
  proof (rule path_invI[OF I(1,2,3,4,5,6,7,8)])
    fix y assume y: "y \<in> set (os @ [x])" "stype y = PathFound"
    then have "y \<in> set os" using yield.hyps(5) by auto
    from I(9)[OF this y(2)] show "\<exists>tv. t = Some tv \<and> path_ok g s tv y" .
  qed simp_all
next
  case (visit ds ps vs ids os c)
  note I = path_invD[OF visit.IH[OF visit.prems]]
  have cs: "vs = [] \<Longrightarrow> c = s" using I(3) visit.hyps(2) by auto
  show ?case
  proof (rule path_invI[OF _ _ _ _ I(5,6) _ I(8,9)])
    show "pred_order ps (set_add c vs)" using I(1) by (auto simp: pred_order_def rank_set_add)
    show "set (set_add c vs) \<subseteq> ids" using I(2) visit.hyps(2) by (auto simp: set_add_def)
    show "set_add c vs = [] \<Longrightarrow> ids = {s}" by (simp add: set_add_def split: if_splits)
    show "s \<in> set (set_add c vs)" using I(4) cs by (cases "vs = []") (auto simp: set_add_def)
    show "links_ok h g ds ps (set_add c vs)" using I(7) by (auto simp: links_ok_def set_add_def)
  qed simp_all
next
  case (relax ds ps vs ids os c n e w)
  note I = path_invD[OF relax.IH[OF relax.prems]]
  have ne: "vs \<noteq> []" using relax.hyps(2) by auto
  have sv: "s \<in> set vs" by (rule I(4)[OF ne])
  have ns: "n \<noteq> s" using sv relax.hyps(3) by auto
  have nc: "n \<noteq> c" using relax.hyps(2,3) by auto
  let ?new = "js_add (num_get ds c) (Num w)"
  show ?case
  proof (rule path_invI)
    show "pred_order (AList.update n (Some c) ps) vs"
      using I(1) rank_in[OF relax.hyps(2)] rank_notin[OF relax.hyps(3)]
      by (auto simp: pred_order_def update_conv' split: if_splits)
    show "set vs \<subseteq> insert n ids" using I(2) by auto
    show "vs = [] \<Longrightarrow> insert n ids = {s}" using ne by simp
    show "vs \<noteq> [] \<Longrightarrow> s \<in> set vs" using sv by simp
    show "root (AList.update n (Some c) ps) s" using I(5) ns by (simp add: root_def update_conv')
    show "num_get (AList.update n ?new ds) s = Num 0" using I(6) ns by (simp add: num_get_update)
    show "links_ok h g (AList.update n ?new ds) (AList.update n (Some c) ps) vs"
      unfolding links_ok_def
    proof (intro allI impI)
      fix v c' assume a: "map_of (AList.update n (Some c) ps) v = Some (Some c')"
      show "c' \<in> set vs \<and> (\<exists>e w. (v, e, w) \<in> set (getNeighbors h g c') \<and>
              num_get (AList.update n ?new ds) v = js_add (num_get (AList.update n ?new ds) c') (Num w))"
      proof (cases "v = n")
        case True
        then have c': "c' = c" using a by (simp add: update_conv')
        have "num_get (AList.update n ?new ds) n = js_add (num_get (AList.update n ?new ds) c) (Num w)"
          using nc by (simp add: num_get_update)
        then show ?thesis unfolding True c' using relax.hyps(2,4) by blast
      next
        case False
        then have p: "map_of ps v = Some (Some c')" using a by (simp add: update_conv')
        note l = links_okD[OF I(7) p]
        have "c' \<noteq> n" using l(1) relax.hyps(3) by auto
        then show ?thesis using l False by (simp add: num_get_update)
      qed
    qed
    show "\<And>v. v \<in> insert n ids \<Longrightarrow> v \<noteq> s \<Longrightarrow> \<exists>c'. map_of (AList.update n (Some c) ps) v = Some (Some c')"
      using I(8) by (auto simp: update_conv')
    show "\<And>x. x \<in> set os \<Longrightarrow> stype x = PathFound \<Longrightarrow> \<exists>tv. t = Some tv \<and> path_ok g s tv x"
      by (rule I(9))
  qed
next
  case (found ds ps vs ids os tv p x)
  note I = path_invD[OF found.IH[OF found.prems]]
  from reconstructPath_loop_total[of ps "rank vs" "[]" tv] I(1)
  obtain p' where p': "reconstructPath_loop ps [] (Some tv) = Some (p' @ [])" "p' \<noteq> []" "last p' = tv"
    "root ps (hd p')" "follows ps p'"
    unfolding pred_order_def by blast
  have pp: "p' = p" using p'(1) found.hyps(4) by (simp add: reconstructPath_def)
  note p = p'(2,3,4,5)[unfolded pp]
  have "hd p \<in> ids" by (rule follows_ids[OF I(7) I(2) p(1) p(4)]) (simp add: p(2) found.hyps(3))
  then have hd: "hd p = s" using I(8)[of "hd p"] p(3) unfolding root_def by blast
  from follows_cost[OF I(7) p(1) p(4)] obtain ks where ks: "joined g p ks"
    "num_get ds (last p) = foldl js_add (num_get ds (hd p)) (map (weight_of g) ks)" by blast
  have cost: "num_get ds tv = path_cost g ks" using ks(2) by (simp add: p(2) hd I(6) path_cost_def)
  have ok: "path_ok g s tv x"
    unfolding path_ok_def
    by (intro exI[of _ p] exI[of _ ks] conjI found.hyps(9) p(1) hd p(2) ks(1))
       (simp add: found.hyps(10) cost)
  show ?case
  proof (rule path_invI[OF I(1,2,3,4,5,6,7,8)])
    fix y assume y: "y \<in> set (os @ [x])" "stype y = PathFound"
    show "\<exists>tv. t = Some tv \<and> path_ok g s tv y"
    proof (cases "y = x")
      case True
      then show ?thesis using ok found.hyps(2) by blast
    next
      case False
      then have "y \<in> set os" using y(1) by auto
      from I(9)[OF this y(2)] show ?thesis .
    qed
  qed simp_all
qed

lemma path_inv_dijkstra_start:
  assumes "map_of (nodes g) s \<noteq> None"
  shows "path_inv h g s t (dijkstra_start g s t)"
  unfolding dijkstra_start_def
proof (rule path_invI)
  have "s \<in> fst ` set (nodes g)" using assms by (simp add: map_of_eq_None_iff)
  then show "num_get (distances (dijkstra_init g s t)) s = Num 0"
    by (simp add: num_get_def dijkstra_init_simps)
  show "root (predecessors (dijkstra_init g s t)) s" by (simp add: root_def dijkstra_init_simps)
  show "links_ok h g (distances (dijkstra_init g s t)) (predecessors (dijkstra_init g s t)) []"
    by (simp add: links_ok_def dijkstra_init_simps)
  show "pred_order (predecessors (dijkstra_init g s t)) []" by (rule pred_order_dijkstra_init)
qed simp_all

lemma path_inv_astar_start: "path_inv h g s tt (astar_start g s t hv)"
  unfolding astar_start_def
proof (rule path_invI)
  show "num_get (distances (astar_init g s t hv)) s = Num 0"
    by (simp add: num_get_def astar_init_simps)
  show "root (predecessors (astar_init g s t hv)) s" by (simp add: root_def astar_init_simps)
  show "links_ok h g (distances (astar_init g s t hv)) (predecessors (astar_init g s t hv)) []"
    by (simp add: links_ok_def astar_init_simps)
  show "pred_order (predecessors (astar_init g s t hv)) []" by (rule pred_order_astar_init)
qed simp_all

lemma sim_out_path:
  assumes "sim_out h g t A0 steps" "path_inv h g s t A0" "x \<in> set steps" "stype x = PathFound"
  shows "\<exists>tv. t = Some tv \<and> path_ok g s tv x"
proof -
  from assms(1) obtain ds ps vs ids where "reach h g t A0 (ds, ps, vs, ids, steps)"
    unfolding sim_out_def by blast
  from path_invD(9)[OF reach_path_inv[OF this assms(2)] assms(3,4)] show ?thesis .
qed

text \<open>C2, amended: for every \<open>path-found\<close> step of a run of the heuristic engine, and of a
  run of the single-source engine whose source id is a key of \<open>graph.nodes\<close>, the
  recorded path starts with the source id and ends with the target id, there are edges
  of the graph that join its consecutive nodes, one each, and the recorded total is the
  sum of their weights, added from 0 in the order of the path. Both runs return.\<close>

theorem path_found_cost:
  "(map_of (nodes g) sourceId \<noteq> None \<longrightarrow>
      (\<exists>steps. generateDijkstraSteps h g sourceId targetId = Some steps \<and>
         (\<forall>x\<in>set steps. stype x = PathFound \<longrightarrow> (\<exists>tv. targetId = Some tv \<and> path_ok g sourceId tv x)))) \<and>
   (\<exists>steps err. generateAStarSteps h g sourceId target heuristic = Some (steps, err) \<and>
      (\<forall>x\<in>set steps. stype x = PathFound \<longrightarrow> path_ok g sourceId target x))"
proof (intro conjI impI)
  assume src: "map_of (nodes g) sourceId \<noteq> None"
  from dijkstra_run_reach[of h g sourceId targetId]
  obtain steps where s: "generateDijkstraSteps h g sourceId targetId = Some steps"
    "sim_out h g targetId (dijkstra_start g sourceId targetId) steps"
    by (elim exE conjE)
  have "\<forall>x\<in>set steps. stype x = PathFound \<longrightarrow> (\<exists>tv. targetId = Some tv \<and> path_ok g sourceId tv x)"
    using sim_out_path[OF s(2) path_inv_dijkstra_start[OF src]] by blast
  then show "\<exists>steps. generateDijkstraSteps h g sourceId targetId = Some steps \<and>
         (\<forall>x\<in>set steps. stype x = PathFound \<longrightarrow> (\<exists>tv. targetId = Some tv \<and> path_ok g sourceId tv x))"
    using s(1) by blast
next
  from astar_run_reach[of h g sourceId target heuristic] obtain steps err where
    s: "generateAStarSteps h g sourceId target heuristic = Some (steps, err)"
    "steps = [] \<or> (\<exists>hv. sim_out h g (Some target) (astar_start g sourceId target hv) steps)" by blast
  have "\<forall>x\<in>set steps. stype x = PathFound \<longrightarrow> path_ok g sourceId target x"
  proof (intro ballI impI)
    fix x assume x: "x \<in> set steps" "stype x = PathFound"
    then obtain hv where "sim_out h g (Some target) (astar_start g sourceId target hv) steps"
      using s(2) by auto
    from sim_out_path[OF this path_inv_astar_start x] show "path_ok g sourceId target x" by simp
  qed
  then show "\<exists>steps err. generateAStarSteps h g sourceId target heuristic = Some (steps, err) \<and>
      (\<forall>x\<in>set steps. stype x = PathFound \<longrightarrow> path_ok g sourceId target x)"
    using s(1) by blast
qed

lemma run_triangle_dijkstra_target:
  "map_option (map (\<lambda>s. (stype s, shortestPath s, totalDistance s)))
     (generateDijkstraSteps (fst triangle) (snd triangle) ''S'' (Some ''B''))
   = Some [(Init, None, None), (SelectNode, None, None), (MarkVisited, None, None),
           (ExamineEdge, None, None), (RelaxEdge, None, None),
           (ExamineEdge, None, None), (RelaxEdge, None, None),
           (SelectNode, None, None), (MarkVisited, None, None),
           (ExamineEdge, None, None), (RelaxEdge, None, None),
           (SelectNode, None, None),
           (PathFound, Some [''S'', ''A'', ''B''], Some (Num 2))]"
  unfolding triangle_def by code_simp

lemma run_triangle_astar_target:
  "map_option (\<lambda>r. (map (\<lambda>s. (stype s, shortestPath s, totalDistance s)) (fst r), snd r))
     (generateAStarSteps (fst triangle) (snd triangle) ''S'' ''B'' manhattanDistance)
   = Some ([(Init, None, None), (SelectNode, None, None), (ExamineEdge, None, None),
            (RelaxEdge, None, None), (ExamineEdge, None, None),
            (RelaxEdge, None, None), (SelectNode, None, None),
            (ExamineEdge, None, None), (RelaxEdge, None, None),
            (SelectNode, None, None),
            (PathFound, Some [''S'', ''A'', ''B''], Some (Num 2))], None)"
  unfolding triangle_def by code_simp

lemma last_snapshot:
  assumes "map f steps = xs" "xs \<noteq> []"
  shows "f (last steps) = last xs" "last steps \<in> set steps"
proof -
  have ne: "steps \<noteq> []" using assms by auto
  show "last steps \<in> set steps" using ne by simp
  show "f (last steps) = last xs" unfolding assms(1)[symmetric] using ne by (simp add: last_map)
qed

theorem path_found_cost_witness:
  "map_of (nodes (snd triangle)) ''S'' = Some (node_at ''S'' 0 0) \<and>
   (\<exists>steps. generateDijkstraSteps (fst triangle) (snd triangle) ''S'' (Some ''B'') = Some steps \<and>
      stype (last steps) = PathFound \<and> shortestPath (last steps) = Some [''S'', ''A'', ''B''] \<and>
      totalDistance (last steps) = Some (Num 2) \<and> path_ok (snd triangle) ''S'' ''B'' (last steps)) \<and>
   (\<exists>steps err. generateAStarSteps (fst triangle) (snd triangle) ''S'' ''B'' manhattanDistance = Some (steps, err) \<and>
      stype (last steps) = PathFound \<and> shortestPath (last steps) = Some [''S'', ''A'', ''B''] \<and>
      totalDistance (last steps) = Some (Num 2) \<and> path_ok (snd triangle) ''S'' ''B'' (last steps))"
proof -
  have src: "map_of (nodes (snd triangle)) ''S'' = Some (node_at ''S'' 0 0)" by (simp add: triangle_def)
  then have src': "map_of (nodes (snd triangle)) ''S'' \<noteq> None" by simp
  note m = path_found_cost[of "snd triangle" "''S''" "fst triangle" "Some ''B''" "''B''" manhattanDistance]
  from m src' obtain ds where d: "generateDijkstraSteps (fst triangle) (snd triangle) ''S'' (Some ''B'') = Some ds"
    "\<forall>x\<in>set ds. stype x = PathFound \<longrightarrow> (\<exists>tv. Some ''B'' = Some tv \<and> path_ok (snd triangle) ''S'' tv x)"
    by blast
  from m obtain as err where a:
    "generateAStarSteps (fst triangle) (snd triangle) ''S'' ''B'' manhattanDistance = Some (as, err)"
    "\<forall>x\<in>set as. stype x = PathFound \<longrightarrow> path_ok (snd triangle) ''S'' ''B'' x"
    by blast
  have dm: "map (\<lambda>s. (stype s, shortestPath s, totalDistance s)) ds
     = the (map_option (map (\<lambda>s. (stype s, shortestPath s, totalDistance s)))
         (generateDijkstraSteps (fst triangle) (snd triangle) ''S'' (Some ''B'')))"
    by (simp only: d(1) option.map option.sel)
  have am: "map (\<lambda>s. (stype s, shortestPath s, totalDistance s)) as
     = fst (the (map_option (\<lambda>r. (map (\<lambda>s. (stype s, shortestPath s, totalDistance s)) (fst r), snd r))
         (generateAStarSteps (fst triangle) (snd triangle) ''S'' ''B'' manhattanDistance)))"
    by (simp only: a(1) option.map option.sel fst_conv)
  note dl = last_snapshot[OF dm[unfolded run_triangle_dijkstra_target option.sel]]
  note al = last_snapshot[OF am[unfolded run_triangle_astar_target option.sel fst_conv]]
  have d1: "(stype (last ds), shortestPath (last ds), totalDistance (last ds))
              = (PathFound, Some [''S'', ''A'', ''B''], Some (Num 2))"
    by (subst dl(1)) simp_all
  have d2: "last ds \<in> set ds" by (rule dl(2)) simp
  have a1: "(stype (last as), shortestPath (last as), totalDistance (last as))
              = (PathFound, Some [''S'', ''A'', ''B''], Some (Num 2))"
    by (subst al(1)) simp_all
  have a2: "last as \<in> set as" by (rule al(2)) simp
  have dp: "path_ok (snd triangle) ''S'' ''B'' (last ds)" using d(2) d2 d1 by auto
  have ap: "path_ok (snd triangle) ''S'' ''B'' (last as)" using a(2) a2 a1 by auto
  have 1: "\<exists>steps. generateDijkstraSteps (fst triangle) (snd triangle) ''S'' (Some ''B'') = Some steps \<and>
      stype (last steps) = PathFound \<and> shortestPath (last steps) = Some [''S'', ''A'', ''B''] \<and>
      totalDistance (last steps) = Some (Num 2) \<and> path_ok (snd triangle) ''S'' ''B'' (last steps)"
    using d(1) d1 dp by (intro exI[of _ ds]) simp
  have 2: "\<exists>steps err. generateAStarSteps (fst triangle) (snd triangle) ''S'' ''B'' manhattanDistance = Some (steps, err) \<and>
      stype (last steps) = PathFound \<and> shortestPath (last steps) = Some [''S'', ''A'', ''B''] \<and>
      totalDistance (last steps) = Some (Num 2) \<and> path_ok (snd triangle) ''S'' ''B'' (last steps)"
    using a(1) a1 ap by (intro exI[of _ as] exI[of _ err]) simp
  show ?thesis by (intro conjI src 1 2)
qed

lemma run_source_absent_target:
  "map_option (map (\<lambda>s. (stype s, shortestPath s, totalDistance s)))
     (generateDijkstraSteps (fst one_node) (snd one_node) ''Z'' (Some ''Z''))
   = Some [(Init, None, None), (SelectNode, None, None), (PathFound, Some [''Z''], Some Undefined)]"
  unfolding one_node_eq by code_simp

text \<open>C2 as stated fails for the single-source engine when the source id is not a key of
  \<open>graph.nodes\<close> and is the target: on the graph with the single node \<open>A\<close>, the run from
  \<open>Z\<close> to \<open>Z\<close> ends with a \<open>path-found\<close> step whose path is \<open>Z\<close> alone and whose total
  is \<open>undefined\<close>, where the sum of the weights of no edges is 0.\<close>

theorem path_found_cost_counterexample:
  "map_option (map (\<lambda>s. (stype s, shortestPath s, totalDistance s)))
     (generateDijkstraSteps (fst one_node) (snd one_node) ''Z'' (Some ''Z''))
   = Some [(Init, None, None), (SelectNode, None, None), (PathFound, Some [''Z''], Some Undefined)] \<and>
   joined (snd one_node) [''Z''] [] \<and> path_cost (snd one_node) [] = Num 0 \<and>
   map_of (nodes (snd one_node)) ''Z'' = None"
  using run_source_absent_target by (simp add: path_cost_def one_node_eq)

end
